theory Spec2Isabelle
  imports Main "HOL-Library.AList"
begin

section \<open>Values, dictionaries and exceptions\<close>

text \<open>
  The agent of \<^verbatim>\<open>agent.py\<close> threads one Python dict, the \<^verbatim>\<open>AgentState\<close>, through the
  stages of a graph. Python strings are char lists here; the check mark that opens
  every stage header of the log (U+2705) is written as the three bytes of its UTF-8
  form. The case mappings and the whitespace test below are Python's on ASCII and leave
  every other character alone.

  The stages print to the console as well; printing changes no state and is left out.
\<close>

datatype exn =
    KeyError string
  | TypeError
  | OverflowError
  | UnhandledRouteLabel string
  | ConfigurationError string

text \<open>
  The values that the program stores under the keys of its \<^verbatim>\<open>Dict[str, Any]\<close> fields:
  strings, ints, bools, lists of strings, and the one float it makes,
  \<^verbatim>\<open>priority * 1.5\<close>, which is carried as the int it was made from.
\<close>

datatype pyval =
    VStr string
  | VInt int
  | VBool bool
  | VList "string list"
  | VFloat_times_1_5 int

type_synonym 'v dict = "(string \<times> 'v) list"

definition subscript :: "'v dict \<Rightarrow> string \<Rightarrow> exn + 'v" where
  \<comment> \<open>\<^verbatim>\<open>d[k]\<close>\<close>
  "subscript d k = (case map_of d k of None \<Rightarrow> Inl (KeyError k) | Some v \<Rightarrow> Inr v)"

definition get_default :: "'v dict \<Rightarrow> string \<Rightarrow> 'v \<Rightarrow> 'v" where
  \<comment> \<open>\<^verbatim>\<open>d.get(k, default)\<close>\<close>
  "get_default d k dflt = (case map_of d k of None \<Rightarrow> dflt | Some v \<Rightarrow> v)"

definition merge :: "'v dict \<Rightarrow> 'v dict \<Rightarrow> 'v dict" where
  \<comment> \<open>\<^verbatim>\<open>{**a, **b}\<close>: the keys of \<open>a\<close> in their order, each key of \<open>b\<close> overwriting or appended\<close>
  "merge a b = fold (\<lambda>(k, v). AList.update k v) b a"

section \<open>String operations\<close>

definition lower_char :: "char \<Rightarrow> char" where
  "lower_char c = (let n = (of_char c :: nat) in if 65 \<le> n \<and> n \<le> 90 then char_of (n + 32) else c)"

definition upper_char :: "char \<Rightarrow> char" where
  "upper_char c = (let n = (of_char c :: nat) in if 97 \<le> n \<and> n \<le> 122 then char_of (n - 32) else c)"

definition lower :: "string \<Rightarrow> string" where
  "lower s = map lower_char s"

definition upper :: "string \<Rightarrow> string" where
  "upper s = map upper_char s"

definition is_space :: "char \<Rightarrow> bool" where
  "is_space c = (let n = (of_char c :: nat) in (9 \<le> n \<and> n \<le> 13) \<or> (28 \<le> n \<and> n \<le> 32))"

definition strip :: "string \<Rightarrow> string" where
  "strip s = rev (dropWhile is_space (rev (dropWhile is_space s)))"

fun starts_with :: "string \<Rightarrow> string \<Rightarrow> bool" where
  "starts_with [] s = True"
| "starts_with (p # ps) [] = False"
| "starts_with (p # ps) (c # cs) = (p = c \<and> starts_with ps cs)"

fun contains :: "string \<Rightarrow> string \<Rightarrow> bool" where
  \<comment> \<open>\<^verbatim>\<open>sub in s\<close> on strings\<close>
  "contains sub [] = (sub = [])"
| "contains sub (c # cs) = (starts_with sub (c # cs) \<or> contains sub cs)"

fun digits :: "nat \<Rightarrow> string" where
  "digits n = (if n < 10 then [char_of (48 + n)] else digits (n div 10) @ [char_of (48 + n mod 10)])"

definition str_int :: "int \<Rightarrow> string" where
  \<comment> \<open>\<^verbatim>\<open>str(i)\<close>, which is what an f-string makes of an int\<close>
  "str_int i = (if i < 0 then CHR ''-'' # digits (nat (- i)) else digits (nat i))"

definition py_in :: "string \<Rightarrow> pyval \<Rightarrow> exn + bool" where
  \<comment> \<open>\<^verbatim>\<open>x in v\<close> for a string \<open>x\<close>: membership in a list, substring of a string, TypeError otherwise\<close>
  "py_in x v =
     (case v of
        VList xs \<Rightarrow> Inr (x \<in> set xs)
      | VStr s \<Rightarrow> Inr (contains x s)
      | _ \<Rightarrow> Inl TypeError)"

section \<open>The capability clients\<close>

subsection \<open>CommonMcpClient\<close>

definition parse_request_text :: "string \<Rightarrow> pyval dict" where
  "parse_request_text query =
     (if contains ''error code'' (lower query)
      then [(''intent'', VStr ''technical_support''), (''structured_query'', VStr query)]
      else [(''intent'', VStr ''general_inquiry''), (''structured_query'', VStr query)])"

definition normalize_fields :: "string \<Rightarrow> pyval dict" where
  "normalize_fields ticket_id = [(''normalized_ticket_id'', VStr (upper (strip ticket_id)))]"

definition float_of_int_overflows :: "int \<Rightarrow> bool" where
  \<comment> \<open>the ints that do not round to a finite double: the product raises OverflowError on them\<close>
  "float_of_int_overflows i = (2 ^ 1024 - 2 ^ 970 \<le> \<bar>i\<bar>)"

definition add_flags_calculations :: "int \<Rightarrow> string \<Rightarrow> exn + pyval dict" where
  "add_flags_calculations priority query =
     (let is_urgent = (contains ''urgent'' (lower query) \<or> priority > 3) in
      if is_urgent
      then (if float_of_int_overflows priority then Inl OverflowError
            else Inr [(''is_urgent_flag'', VBool is_urgent),
                      (''calculated_priority'', VFloat_times_1_5 priority)])
      else Inr [(''is_urgent_flag'', VBool is_urgent), (''calculated_priority'', VInt priority)])"

definition solution_evaluation :: "string dict \<Rightarrow> int dict" where
  "solution_evaluation kb_article =
     (let score = (if contains ''error code'' (lower (get_default kb_article ''title'' ''''))
                   then 95 else 75)
      in [(''solution_score'', score)])"

definition response_generation :: "string \<Rightarrow> string \<Rightarrow> string dict \<Rightarrow> exn + string dict" where
  "response_generation customer_name query kb_article =
     (case subscript kb_article ''title'' of
        Inl e \<Rightarrow> Inl e
      | Inr title \<Rightarrow>
          (case subscript kb_article ''summary'' of
             Inl e \<Rightarrow> Inl e
           | Inr summary \<Rightarrow>
               Inr [(''generated_response'',
                     ''Hello '' @ customer_name @ [CHR '','', CHR 0x0A, CHR 0x0A]
                     @ ''Thank you for contacting us about your query: '' @ [CHR 0x27]
                     @ take 30 query @ ''...'' @ [CHR 0x27, CHR ''.'', CHR 0x0A, CHR 0x0A]
                     @ ''Based on our knowledge base, here is a relevant article that might help: ''
                     @ [CHR 0x27] @ title @ [CHR 0x27, CHR ''.'', CHR 0x0A, CHR 0x0A]
                     @ ''Summary: '' @ summary @ [CHR 0x0A, CHR 0x0A]
                     @ ''Regards,'' @ [CHR 0x0A] @ ''Langie Support Agent'')]))"

subsection \<open>AtlasMcpClient\<close>

definition extract_entities :: "string \<Rightarrow> pyval dict" where
  "extract_entities query =
     [(''extracted_entities'',
       VList ((if contains ''Pro-Widget X'' query then [''Pro-Widget X''] else [])
              @ (if contains ''error code 42'' query then [''error code 42''] else [])))]"

definition enrich_records :: "string \<Rightarrow> pyval dict" where
  "enrich_records email = [(''customer_sla'', VStr ''Gold''), (''historical_ticket_count'', VInt 5)]"

definition kb_123 :: "string dict" where
  "kb_123 =
     [(''id'', ''KB-123''),
      (''title'', ''Resolving Error Code 42 on Pro-Widget X''),
      (''summary'', ''This error is typically caused by a firmware mismatch. To resolve, please follow the steps to update the firmware...'')]"

definition knowledge_base_search :: "pyval \<Rightarrow> exn + (string dict) dict" where
  "knowledge_base_search entities =
     (case py_in ''error code 42'' entities of
        Inl e \<Rightarrow> Inl e
      | Inr found \<Rightarrow>
          Inr [(''retrieved_kb_article'', if found then kb_123 else [])])"

definition escalation_decision :: "string \<Rightarrow> string dict" where
  "escalation_decision ticket_id = [(''escalation_status'', ''Assigned to Tier 2 Support'')]"

definition update_ticket :: "string \<Rightarrow> string \<Rightarrow> string \<Rightarrow> string dict" where
  "update_ticket ticket_id status assignee = [(''ticket_update_status'', ''SUCCESS'')]"

definition close_ticket :: "string \<Rightarrow> string dict" where
  "close_ticket ticket_id = [(''ticket_close_status'', ''SUCCESS'')]"

definition trigger_notifications :: "string \<Rightarrow> string \<Rightarrow> string dict" where
  "trigger_notifications email message = [(''notification_status'', ''SENT'')]"

definition execute_api_calls :: "string \<Rightarrow> string \<Rightarrow> string dict" where
  "execute_api_calls email message = trigger_notifications email message"

section \<open>The state\<close>

text \<open>
  \<^verbatim>\<open>AgentState\<close> is a dict: a key that was never written is absent, and reading it
  raises KeyError. Every field is therefore optional. The knowledge-base article is
  the dict of strings that the search returns, the three other dicts hold \<open>pyval\<close>s.
\<close>

record AgentState =
  customer_name :: "string option"
  email :: "string option"
  query :: "string option"
  priority :: "int option"
  ticket_id :: "string option"
  log :: "string list option"
  structured_data :: "pyval dict option"
  enriched_data :: "pyval dict option"
  retrieved_kb_article :: "string dict option"
  decision :: "pyval dict option"
  final_response :: "string option"
  final_status :: "string option"

text \<open>
  A stage mutates the dict it is given and returns it, or raises part-way; what it has
  written before the raise stays written. Both endings carry the state.
\<close>

datatype outcome = Returned AgentState | Raised exn AgentState

fun state_of :: "outcome \<Rightarrow> AgentState" where
  "state_of (Returned s) = s"
| "state_of (Raised e s) = s"

definition check_mark :: string where
  "check_mark = [CHR 0xE2, CHR 0x9C, CHR 0x85]"

definition log_append :: "string \<Rightarrow> AgentState \<Rightarrow> exn + AgentState" where
  \<comment> \<open>\<^verbatim>\<open>state['log'].append(message)\<close>\<close>
  "log_append message state =
     (case log state of
        None \<Rightarrow> Inl (KeyError ''log'')
      | Some l \<Rightarrow> Inr (state\<lparr>log := Some (l @ [message])\<rparr>))"

section \<open>The stages\<close>

definition stage_intake :: "AgentState \<Rightarrow> outcome" where
  "stage_intake state =
     (case log_append (check_mark @ '' STAGE: INTAKE - Payload accepted.'') state of
        Inl e \<Rightarrow> Raised e state
      | Inr s1 \<Rightarrow> Returned s1)"

definition stage_understand :: "AgentState \<Rightarrow> outcome" where
  "stage_understand state =
     (case log_append (check_mark @ '' STAGE: UNDERSTAND'') state of
        Inl e \<Rightarrow> Raised e state
      | Inr s1 \<Rightarrow>
          (case query s1 of
             None \<Rightarrow> Raised (KeyError ''query'') s1
           | Some q \<Rightarrow>
               Returned (s1\<lparr>structured_data :=
                             Some (merge (parse_request_text q) (extract_entities q))\<rparr>)))"

definition stage_prepare :: "AgentState \<Rightarrow> outcome" where
  "stage_prepare state =
     (case log_append (check_mark @ '' STAGE: PREPARE'') state of
        Inl e \<Rightarrow> Raised e state
      | Inr s1 \<Rightarrow>
          (case ticket_id s1 of
             None \<Rightarrow> Raised (KeyError ''ticket_id'') s1
           | Some t \<Rightarrow>
          (case email s1 of
             None \<Rightarrow> Raised (KeyError ''email'') s1
           | Some m \<Rightarrow>
          (case priority s1 of
             None \<Rightarrow> Raised (KeyError ''priority'') s1
           | Some p \<Rightarrow>
          (case query s1 of
             None \<Rightarrow> Raised (KeyError ''query'') s1
           | Some q \<Rightarrow>
          (case add_flags_calculations p q of
             Inl e \<Rightarrow> Raised e s1
           | Inr flags_result \<Rightarrow>
               Returned (s1\<lparr>enriched_data :=
                             Some (merge (merge (normalize_fields t) (enrich_records m))
                                         flags_result)\<rparr>)))))))"

definition stage_retrieve :: "AgentState \<Rightarrow> outcome" where
  "stage_retrieve state =
     (case log_append (check_mark @ '' STAGE: RETRIEVE'') state of
        Inl e \<Rightarrow> Raised e state
      | Inr s1 \<Rightarrow>
          (case structured_data s1 of
             None \<Rightarrow> Raised (KeyError ''structured_data'') s1
           | Some sd \<Rightarrow>
          (case subscript sd ''extracted_entities'' of
             Inl e \<Rightarrow> Raised e s1
           | Inr entities \<Rightarrow>
          (case knowledge_base_search entities of
             Inl e \<Rightarrow> Raised e s1
           | Inr kb_result \<Rightarrow>
          (case subscript kb_result ''retrieved_kb_article'' of
             Inl e \<Rightarrow> Raised e s1
           | Inr article \<Rightarrow> Returned (s1\<lparr>retrieved_kb_article := Some article\<rparr>))))))"

text \<open>
  DECIDE makes its two clients itself. The stage is written over the two capabilities
  it calls, so that the threshold can be stated for any score; \<open>stage_decide\<close> is the
  stage of the source, with the capabilities of the source's clients.
\<close>

definition stage_decide_with ::
  "(string dict \<Rightarrow> int dict) \<Rightarrow> (string \<Rightarrow> string dict) \<Rightarrow> AgentState \<Rightarrow> outcome" where
  "stage_decide_with evaluation escalation state =
     (case log_append (check_mark @ '' STAGE: DECIDE'') state of
        Inl e \<Rightarrow> Raised e state
      | Inr s1 \<Rightarrow>
          (case retrieved_kb_article s1 of
             None \<Rightarrow> Raised (KeyError ''retrieved_kb_article'') s1
           | Some article \<Rightarrow>
          (case subscript (evaluation article) ''solution_score'' of
             Inl e \<Rightarrow> Raised e s1
           | Inr score \<Rightarrow>
               if score \<ge> 90
               then
                 (let s2 = s1\<lparr>decision := Some [(''score'', VInt score),
                                                  (''outcome'', VStr ''CREATE_RESPONSE'')]\<rparr>
                  in case log_append (''  Decision Logic: Score is '' @ str_int score @ ''. ''
                                      @ ''Sufficient solution found. Proceed to create response.'') s2 of
                       Inl e \<Rightarrow> Raised e s2
                     | Inr s3 \<Rightarrow> Returned s3)
               else
                 (case ticket_id s1 of
                    None \<Rightarrow> Raised (KeyError ''ticket_id'') s1
                  | Some t \<Rightarrow>
                      (let s2 = s1\<lparr>decision :=
                                      Some (merge [(''score'', VInt score), (''outcome'', VStr ''ESCALATE'')]
                                                  (map (\<lambda>(k, v). (k, VStr v)) (escalation t)))\<rparr>
                       in case log_append (''  Decision Logic: Score is '' @ str_int score @ ''. ''
                                           @ ''Solution score is low. Escalating to human agent.'') s2 of
                            Inl e \<Rightarrow> Raised e s2
                          | Inr s3 \<Rightarrow> Returned s3)))))"

definition stage_decide :: "AgentState \<Rightarrow> outcome" where
  "stage_decide = stage_decide_with solution_evaluation escalation_decision"

definition stage_create :: "AgentState \<Rightarrow> outcome" where
  "stage_create state =
     (case log_append (check_mark @ '' STAGE: CREATE'') state of
        Inl e \<Rightarrow> Raised e state
      | Inr s1 \<Rightarrow>
          (case customer_name s1 of
             None \<Rightarrow> Raised (KeyError ''customer_name'') s1
           | Some c \<Rightarrow>
          (case query s1 of
             None \<Rightarrow> Raised (KeyError ''query'') s1
           | Some q \<Rightarrow>
          (case retrieved_kb_article s1 of
             None \<Rightarrow> Raised (KeyError ''retrieved_kb_article'') s1
           | Some article \<Rightarrow>
          (case response_generation c q article of
             Inl e \<Rightarrow> Raised e s1
           | Inr response_result \<Rightarrow>
          (case subscript response_result ''generated_response'' of
             Inl e \<Rightarrow> Raised e s1
           | Inr response \<Rightarrow>
               Returned (s1\<lparr>final_response := Some response,
                            final_status := Some ''RESOLVED''\<rparr>)))))))"

definition stage_update :: "AgentState \<Rightarrow> outcome" where
  "stage_update state =
     (case log_append (check_mark @ '' STAGE: UPDATE'') state of
        Inl e \<Rightarrow> Raised e state
      | Inr s1 \<Rightarrow>
          (case ticket_id s1 of
             None \<Rightarrow> Raised (KeyError ''ticket_id'') s1
           | Some t \<Rightarrow>
               (let ignored = update_ticket t ''Escalated'' ''Tier 2 Support''
                in Returned (s1\<lparr>final_response :=
                                   Some ''This ticket has been escalated for human review.'',
                                 final_status := Some ''ESCALATED''\<rparr>))))"

definition stage_do :: "AgentState \<Rightarrow> outcome" where
  "stage_do state =
     (case log_append (check_mark @ '' STAGE: DO'') state of
        Inl e \<Rightarrow> Raised e state
      | Inr s1 \<Rightarrow>
          (case email s1 of
             None \<Rightarrow> Raised (KeyError ''email'') s1
           | Some m \<Rightarrow>
          (case final_response s1 of
             None \<Rightarrow> Raised (KeyError ''final_response'') s1
           | Some r \<Rightarrow>
               (let ignored = execute_api_calls m r in Returned s1))))"

definition stage_close :: "AgentState \<Rightarrow> outcome" where
  "stage_close state =
     (case log_append (check_mark @ '' STAGE: CLOSE'') state of
        Inl e \<Rightarrow> Raised e state
      | Inr s1 \<Rightarrow>
          (case ticket_id s1 of
             None \<Rightarrow> Raised (KeyError ''ticket_id'') s1
           | Some t \<Rightarrow> (let ignored = close_ticket t in Returned s1)))"

definition stage_complete :: "AgentState \<Rightarrow> outcome" where
  "stage_complete state =
     (case log_append (check_mark @ '' STAGE: COMPLETE - Workflow finished.'') state of
        Inl e \<Rightarrow> Raised e state
      | Inr s1 \<Rightarrow> Returned s1)"

section \<open>The routers\<close>

definition END :: string where
  "END = ''__end__''"

definition route_after_decision :: "AgentState \<Rightarrow> exn + string" where
  "route_after_decision state =
     (case decision state of
        None \<Rightarrow> Inl (KeyError ''decision'')
      | Some d \<Rightarrow>
          (case subscript d ''outcome'' of
             Inl e \<Rightarrow> Inl e
           | Inr v \<Rightarrow> if v = VStr ''CREATE_RESPONSE'' then Inr ''CREATE'' else Inr ''UPDATE''))"

definition route_after_do :: "AgentState \<Rightarrow> exn + string" where
  "route_after_do state =
     (case final_status state of
        None \<Rightarrow> Inl (KeyError ''final_status'')
      | Some v \<Rightarrow> if v = ''RESOLVED'' then Inr ''CLOSE'' else Inr END)"

section \<open>The graph\<close>

text \<open>
  The tables that the assembly of the graph fills: the nodes with their functions, the
  entry point, the static edges, and for each branching node its router and its path map.
  ASK and WAIT are defined in the source but never added to the graph.
\<close>

definition nodes :: "(string \<times> (AgentState \<Rightarrow> outcome)) list" where
  "nodes =
     [(''INTAKE'', stage_intake),
      (''UNDERSTAND'', stage_understand),
      (''PREPARE'', stage_prepare),
      (''RETRIEVE'', stage_retrieve),
      (''DECIDE'', stage_decide),
      (''CREATE'', stage_create),
      (''UPDATE'', stage_update),
      (''DO'', stage_do),
      (''CLOSE'', stage_close),
      (''COMPLETE'', stage_complete)]"

definition entry_point :: string where
  "entry_point = ''INTAKE''"

definition edges :: "(string \<times> string) list" where
  "edges =
     [(''INTAKE'', ''UNDERSTAND''),
      (''UNDERSTAND'', ''PREPARE''),
      (''PREPARE'', ''RETRIEVE''),
      (''RETRIEVE'', ''DECIDE''),
      (''CREATE'', ''DO''),
      (''UPDATE'', ''DO''),
      (''CLOSE'', ''COMPLETE''),
      (''COMPLETE'', END)]"

definition conditional_edges ::
  "(string \<times> (AgentState \<Rightarrow> exn + string) \<times> (string \<times> string) list) list" where
  "conditional_edges =
     [(''DECIDE'', route_after_decision, [(''CREATE'', ''CREATE''), (''UPDATE'', ''UPDATE'')]),
      (''DO'', route_after_do, [(''CLOSE'', ''CLOSE''), (END, END)])]"

section \<open>The engine\<close>

text \<open>
  Modelled from the spec: the Engine loop of section 4.1, steps (b) to (d). In the
  source the loop belongs to the graph library behind \<^verbatim>\<open>workflow.compile()\<close> and
  \<^verbatim>\<open>app.invoke\<close>, which is not part of the repository. The loop keeps a current node,
  runs its stage, and resolves the next node from the node's router and path map, or from
  its static edge; it stops at the terminal marker, or with the error of a stage or a
  router. Step (a), a check of declared input requirements, has nothing to work on: the
  source registers a name and a function for each node and declares no requirement.

  A configuration records the position of the run, the state, and the names of the stages
  executed so far.
\<close>

datatype config =
    Running string AgentState "string list"
  | Done AgentState "string list"
  | Failed exn AgentState "string list"

fun final :: "config \<Rightarrow> bool" where
  "final (Running n s tr) = False"
| "final (Done s tr) = True"
| "final (Failed e s tr) = True"

fun state_at :: "config \<Rightarrow> AgentState" where
  "state_at (Running n s tr) = s"
| "state_at (Done s tr) = s"
| "state_at (Failed e s tr) = s"

fun trace :: "config \<Rightarrow> string list" where
  "trace (Running n s tr) = tr"
| "trace (Done s tr) = tr"
| "trace (Failed e s tr) = tr"

definition goto :: "string \<Rightarrow> AgentState \<Rightarrow> string list \<Rightarrow> config" where
  "goto target s tr = (if target = END then Done s tr else Running target s tr)"

subsection \<open>As a relation over the tables of the graph\<close>

text \<open>
  Modelled from the spec: one iteration of the Engine loop (section 4.1, steps (b) to (d)),
  which the source leaves to the graph library. The tables are read as relations: a step
  may use any declared function of the node, any static edge, any entry of the path map.
\<close>

inductive step :: "config \<Rightarrow> config \<Rightarrow> bool" where
  stage_raised:
    "(n, stage) \<in> set nodes \<Longrightarrow> stage s = Raised e s' \<Longrightarrow>
     step (Running n s tr) (Failed e s' (tr @ [n]))"
| static_edge:
    "(n, stage) \<in> set nodes \<Longrightarrow> stage s = Returned s' \<Longrightarrow>
     n \<notin> fst ` set conditional_edges \<Longrightarrow> (n, target) \<in> set edges \<Longrightarrow>
     step (Running n s tr) (goto target s' (tr @ [n]))"
| router_raised:
    "(n, stage) \<in> set nodes \<Longrightarrow> stage s = Returned s' \<Longrightarrow>
     (n, router, path_map) \<in> set conditional_edges \<Longrightarrow> router s' = Inl e \<Longrightarrow>
     step (Running n s tr) (Failed e s' (tr @ [n]))"
| routed:
    "(n, stage) \<in> set nodes \<Longrightarrow> stage s = Returned s' \<Longrightarrow>
     (n, router, path_map) \<in> set conditional_edges \<Longrightarrow> router s' = Inr label \<Longrightarrow>
     (label, target) \<in> set path_map \<Longrightarrow>
     step (Running n s tr) (goto target s' (tr @ [n]))"
| unhandled_label:
    "(n, stage) \<in> set nodes \<Longrightarrow> stage s = Returned s' \<Longrightarrow>
     (n, router, path_map) \<in> set conditional_edges \<Longrightarrow> router s' = Inr label \<Longrightarrow>
     label \<notin> fst ` set path_map \<Longrightarrow>
     step (Running n s tr) (Failed (UnhandledRouteLabel label) s' (tr @ [n]))"

definition runs :: "AgentState \<Rightarrow> config \<Rightarrow> bool" where
  \<comment> \<open>a run from the initial state \<open>s0\<close> that has come to its end in \<open>c\<close>\<close>
  "runs s0 c = (step\<^sup>*\<^sup>* (Running entry_point s0 []) c \<and> final c)"

subsection \<open>As a function\<close>

text \<open>
  Modelled from the spec: the same iteration and the loop around it, as functions that look
  the tables up. A router label without an entry in the path map fails the run with
  UnhandledRouteLabel; a name without a node or without an edge is a ConfigurationError.
\<close>

definition next_target :: "string \<Rightarrow> AgentState \<Rightarrow> exn + string" where
  "next_target n s =
     (case map_of conditional_edges n of
        Some (router, path_map) \<Rightarrow>
          (case router s of
             Inl e \<Rightarrow> Inl e
           | Inr label \<Rightarrow>
               (case map_of path_map label of
                  None \<Rightarrow> Inl (UnhandledRouteLabel label)
                | Some target \<Rightarrow> Inr target))
      | None \<Rightarrow>
          (case map_of edges n of
             None \<Rightarrow> Inl (ConfigurationError n)
           | Some target \<Rightarrow> Inr target))"

definition exec_node :: "string \<Rightarrow> AgentState \<Rightarrow> string list \<Rightarrow> config" where
  "exec_node n s tr =
     (case map_of nodes n of
        None \<Rightarrow> Failed (ConfigurationError n) s tr
      | Some stage \<Rightarrow>
          (case stage s of
             Raised e s' \<Rightarrow> Failed e s' (tr @ [n])
           | Returned s' \<Rightarrow>
               (case next_target n s' of
                  Inl e \<Rightarrow> Failed e s' (tr @ [n])
                | Inr target \<Rightarrow> goto target s' (tr @ [n]))))"

fun engine :: "nat \<Rightarrow> config \<Rightarrow> config" where
  "engine 0 c = c"
| "engine (Suc k) (Running n s tr) = engine k (exec_node n s tr)"
| "engine (Suc k) c = c"

definition fuel :: nat where
  \<comment> \<open>the loop of the spec has no bound; the function runs it on fuel, and no run uses it up\<close>
  "fuel = 25"

definition invoke :: "AgentState \<Rightarrow> config" where
  "invoke s0 = engine fuel (Running entry_point s0 [])"

section \<open>Auxiliary notions for the proofs\<close>

subsection \<open>The shape of the graph\<close>

text \<open>
  The successors of a node in the tables, and a rank that falls along every edge: the
  graph is acyclic, and every target is a declared node or the terminal marker.
\<close>

definition successors :: "string \<Rightarrow> string list" where
  "successors n =
     (case map_of conditional_edges n of
        Some (router, path_map) \<Rightarrow> map snd path_map
      | None \<Rightarrow> (case map_of edges n of None \<Rightarrow> [] | Some target \<Rightarrow> [target]))"

definition rank :: "string \<Rightarrow> nat" where
  "rank n = (case map_of (zip (map fst nodes) [9, 8, 7, 6, 5, 4, 4, 3, 2, 1]) n of
               None \<Rightarrow> 0 | Some k \<Rightarrow> k)"

fun declared :: "config \<Rightarrow> bool" where
  "declared (Running n s tr) = (n \<in> set (map fst nodes))"
| "declared (Done s tr) = True"
| "declared (Failed e s tr) = True"

subsection \<open>The two paths\<close>

text \<open>
  The two sequences of stages that a completed run can have executed, the entries that a
  run appends to the log along each of them, and the header that a stage logs.
\<close>

definition resolved_path :: "string list" where
  "resolved_path = [''INTAKE'', ''UNDERSTAND'', ''PREPARE'', ''RETRIEVE'', ''DECIDE'',
                    ''CREATE'', ''DO'', ''CLOSE'', ''COMPLETE'']"

definition escalated_path :: "string list" where
  "escalated_path = [''INTAKE'', ''UNDERSTAND'', ''PREPARE'', ''RETRIEVE'', ''DECIDE'',
                     ''UPDATE'', ''DO'']"

definition resolved_log :: "string list" where
  "resolved_log =
     [check_mark @ '' STAGE: INTAKE - Payload accepted.'',
      check_mark @ '' STAGE: UNDERSTAND'',
      check_mark @ '' STAGE: PREPARE'',
      check_mark @ '' STAGE: RETRIEVE'',
      check_mark @ '' STAGE: DECIDE'',
      ''  Decision Logic: Score is 95. Sufficient solution found. Proceed to create response.'',
      check_mark @ '' STAGE: CREATE'',
      check_mark @ '' STAGE: DO'',
      check_mark @ '' STAGE: CLOSE'',
      check_mark @ '' STAGE: COMPLETE - Workflow finished.'']"

definition escalated_log :: "string list" where
  "escalated_log =
     [check_mark @ '' STAGE: INTAKE - Payload accepted.'',
      check_mark @ '' STAGE: UNDERSTAND'',
      check_mark @ '' STAGE: PREPARE'',
      check_mark @ '' STAGE: RETRIEVE'',
      check_mark @ '' STAGE: DECIDE'',
      ''  Decision Logic: Score is 75. Solution score is low. Escalating to human agent.'',
      check_mark @ '' STAGE: UPDATE'',
      check_mark @ '' STAGE: DO'']"

definition stage_header :: "string \<Rightarrow> string" where
  "stage_header n =
     check_mark @ '' STAGE: '' @ n
     @ (if n = ''INTAKE'' then '' - Payload accepted.''
        else if n = ''COMPLETE'' then '' - Workflow finished.'' else [])"

subsection \<open>An invariant of the configurations of a run\<close>

text \<open>
  Where the run is, what it has executed, what it has logged, and which fields the stages
  so far have secured.
\<close>

definition on_path ::
  "AgentState \<Rightarrow> string list \<Rightarrow> string list \<Rightarrow> nat \<Rightarrow> nat \<Rightarrow> AgentState \<Rightarrow> string list \<Rightarrow> bool" where
  "on_path s0 path plog i j s tr \<longleftrightarrow>
     tr = take i path \<and> (\<exists>l0. log s0 = Some l0 \<and> log s = Some (l0 @ take j plog))"

definition contactable :: "AgentState \<Rightarrow> bool" where
  "contactable s \<longleftrightarrow> ticket_id s \<noteq> None \<and> email s \<noteq> None"

fun run_inv :: "AgentState \<Rightarrow> config \<Rightarrow> bool" where
  "run_inv s0 (Running n s tr) =
     ((n = ''INTAKE'' \<and> s = s0 \<and> tr = [])
    \<or> (n = ''UNDERSTAND'' \<and> on_path s0 resolved_path resolved_log 1 1 s tr)
    \<or> (n = ''PREPARE'' \<and> on_path s0 resolved_path resolved_log 2 2 s tr)
    \<or> (n = ''RETRIEVE'' \<and> on_path s0 resolved_path resolved_log 3 3 s tr \<and> contactable s)
    \<or> (n = ''DECIDE'' \<and> on_path s0 resolved_path resolved_log 4 4 s tr \<and> contactable s \<and>
        (retrieved_kb_article s = Some [] \<or> retrieved_kb_article s = Some kb_123))
    \<or> (n = ''CREATE'' \<and> on_path s0 resolved_path resolved_log 5 6 s tr \<and> contactable s)
    \<or> (n = ''UPDATE'' \<and> on_path s0 escalated_path escalated_log 5 6 s tr \<and> contactable s)
    \<or> (n = ''DO'' \<and> on_path s0 resolved_path resolved_log 6 7 s tr \<and> contactable s \<and>
        final_response s \<noteq> None \<and> final_status s = Some ''RESOLVED'')
    \<or> (n = ''DO'' \<and> on_path s0 escalated_path escalated_log 6 7 s tr \<and> contactable s \<and>
        final_response s \<noteq> None \<and> final_status s = Some ''ESCALATED'')
    \<or> (n = ''CLOSE'' \<and> on_path s0 resolved_path resolved_log 7 8 s tr \<and> contactable s \<and>
        final_status s = Some ''RESOLVED'')
    \<or> (n = ''COMPLETE'' \<and> on_path s0 resolved_path resolved_log 8 9 s tr \<and>
        final_status s = Some ''RESOLVED''))"
| "run_inv s0 (Done s tr) =
     ((on_path s0 resolved_path resolved_log 9 10 s tr \<and> final_status s = Some ''RESOLVED'')
    \<or> (on_path s0 escalated_path escalated_log 7 8 s tr \<and> final_status s = Some ''ESCALATED''))"
| "run_inv s0 (Failed e s tr) =
     (tr \<in> set (map (\<lambda>i. take i resolved_path) [1, 2, 3, 4, 5, 6]) \<and>
      (case e of UnhandledRouteLabel l \<Rightarrow> False | ConfigurationError n \<Rightarrow> False | _ \<Rightarrow> True))"

subsection \<open>Concrete states\<close>

text \<open>
  The sample input of the demo run; the same input with a query that names no known
  entity, and without its query; the states in which the runs from these inputs arrive at
  RETRIEVE and at DO.
\<close>

definition sample_input :: AgentState where
  "sample_input =
     \<lparr>customer_name = Some ''Alice Wonder'',
      email = Some ''alice.w@example.com'',
      query = Some ''Hi, my Pro-Widget X is showing error code 42. I've tried restarting it but it didn't help. Can you assist?'',
      priority = Some 4,
      ticket_id = Some ''TKT-78901'',
      log = Some [],
      structured_data = None, enriched_data = None, retrieved_kb_article = None,
      decision = None, final_response = None, final_status = None\<rparr>"

definition escalating_input :: AgentState where
  "escalating_input = sample_input\<lparr>query := Some ''Where is my invoice?''\<rparr>"


definition escalating_at_retrieve :: AgentState where
  "escalating_at_retrieve = state_at (engine 3 (Running entry_point escalating_input []))"

definition sample_at_do :: AgentState where
  "sample_at_do = state_at (engine 6 (Running entry_point sample_input []))"

definition escalating_at_do :: AgentState where
  "escalating_at_do = state_at (engine 6 (Running entry_point escalating_input []))"

text \<open>
  A state that holds a log and an empty article and nothing else, the same state with a
  ticket, a state whose decision holds the given outcome, and a scoring capability that
  answers 90 for every article.
\<close>

definition no_ticket_state :: AgentState where
  "no_ticket_state =
     \<lparr>customer_name = None, email = None, query = None, priority = None,
      ticket_id = None, log = Some [],
      structured_data = None, enriched_data = None, retrieved_kb_article = Some [],
      decision = None, final_response = None, final_status = None\<rparr>"

definition ticket_state :: AgentState where
  "ticket_state = no_ticket_state\<lparr>ticket_id := Some ''TKT-1''\<rparr>"

definition decided :: "pyval \<Rightarrow> AgentState" where
  "decided v = no_ticket_state\<lparr>decision := Some [(''score'', VInt 75), (''outcome'', v)]\<rparr>"


section \<open>The tables of the graph are functional\<close>

text \<open>
  No node is declared twice, no node has two static edges or two routers, and no path map
  has two entries for a label: each table of the graph is a finite map.
\<close>

lemma nodes_map_of: "(n, f) \<in> set nodes \<Longrightarrow> map_of nodes n = Some f"
  by (rule map_of_is_SomeI) (simp_all add: nodes_def)

lemma edges_map_of: "(n, t) \<in> set edges \<Longrightarrow> map_of edges n = Some t"
  by (rule map_of_is_SomeI) (simp_all add: edges_def)

lemma conditional_edges_map_of:
  "(n, b) \<in> set conditional_edges \<Longrightarrow> map_of conditional_edges n = Some b"
  by (rule map_of_is_SomeI) (simp_all add: conditional_edges_def)

lemma path_map_map_of:
  "(n, router, path_map) \<in> set conditional_edges \<Longrightarrow>
   (l, t) \<in> set path_map \<Longrightarrow> map_of path_map l = Some t"
  by (auto simp: conditional_edges_def END_def)

lemma step_exec_node:
  assumes "step c c'"
  shows "\<exists>n s tr. c = Running n s tr \<and> c' = exec_node n s tr"
  using assms
proof cases
  case (stage_raised n stage s e s' tr)
  then show ?thesis
    by (simp add: exec_node_def nodes_map_of)
next
  case (static_edge n stage s s' target tr)
  then show ?thesis
    by (simp add: exec_node_def next_target_def nodes_map_of edges_map_of
          map_of_eq_None_iff [THEN iffD2])
next
  case (router_raised n stage s s' router path_map e tr)
  then show ?thesis
    by (simp add: exec_node_def next_target_def nodes_map_of conditional_edges_map_of)
next
  case (routed n stage s s' router path_map label target tr)
  then show ?thesis
    by (simp add: exec_node_def next_target_def nodes_map_of conditional_edges_map_of
          path_map_map_of)
next
  case (unhandled_label n stage s s' router path_map label tr)
  then show ?thesis
    by (simp add: exec_node_def next_target_def nodes_map_of conditional_edges_map_of
          map_of_eq_None_iff [THEN iffD2])
qed

lemma step_deterministic: "step c c1 \<Longrightarrow> step c c2 \<Longrightarrow> c1 = c2"
  by (auto dest!: step_exec_node)

lemma exec_node_step:
  assumes "map_of nodes n = Some stage"
  shows "step (Running n s tr) (exec_node n s tr)"
proof -
  have mem: "(n, stage) \<in> set nodes"
    using assms by (rule map_of_SomeD)
  show ?thesis
  proof (cases "stage s")
    case (Raised e s')
    then show ?thesis
      using step.stage_raised [OF mem Raised, of tr] assms by (simp add: exec_node_def)
  next
    case (Returned s')
    show ?thesis
    proof (cases "map_of conditional_edges n")
      case None
      then have nb: "n \<notin> fst ` set conditional_edges"
        by (simp add: map_of_eq_None_iff)
      from mem obtain t where t: "map_of edges n = Some t"
        using None by (auto simp: nodes_def edges_def conditional_edges_def)
      then have "(n, t) \<in> set edges" by (rule map_of_SomeD)
      from step.static_edge [OF mem Returned nb this, of tr] show ?thesis
        using assms Returned None t by (simp add: exec_node_def next_target_def)
    next
      case (Some b)
      obtain router path_map where b: "b = (router, path_map)" by (cases b)
      have cm: "(n, router, path_map) \<in> set conditional_edges"
        using Some b by (auto dest: map_of_SomeD)
      show ?thesis
      proof (cases "router s'")
        case (Inl e)
        from step.router_raised [OF mem Returned cm Inl, of tr] show ?thesis
          using assms Returned Some b Inl by (simp add: exec_node_def next_target_def)
      next
        case (Inr label)
        show ?thesis
        proof (cases "map_of path_map label")
          case None
          then have "label \<notin> fst ` set path_map" by (simp add: map_of_eq_None_iff)
          from step.unhandled_label [OF mem Returned cm Inr this, of tr] show ?thesis
            using assms Returned Some b Inr None by (simp add: exec_node_def next_target_def)
        next
          case (Some t)
          then have "(label, t) \<in> set path_map" by (rule map_of_SomeD)
          from step.routed [OF mem Returned cm Inr this, of tr] show ?thesis
            using assms Returned \<open>map_of conditional_edges n = Some b\<close> b Inr Some
            by (simp add: exec_node_def next_target_def)
        qed
      qed
    qed
  qed
qed

section \<open>The engine function and the relation agree; every run ends\<close>

lemma final_no_step: "step c c' \<Longrightarrow> \<not> final c"
  by (auto dest!: step_exec_node)

lemma engine_final: "final c \<Longrightarrow> engine k c = c"
  by (cases k; cases c) simp_all

lemma star_step_final:
  assumes "step\<^sup>*\<^sup>* c c1" and "final c1" and "step\<^sup>*\<^sup>* c c2" and "final c2"
  shows "c1 = c2"
  using assms
proof (induction rule: converse_rtranclp_induct)
  case base
  from base.prems(2) show ?case
  proof (cases rule: converse_rtranclpE)
    case base
    then show ?thesis by simp
  next
    case (step y)
    with \<open>final c1\<close> show ?thesis by (auto dest: final_no_step)
  qed
next
  case (step y z)
  from step.prems(2) show ?case
  proof (cases rule: converse_rtranclpE)
    case base
    with step.hyps(1) \<open>final c2\<close> show ?thesis by (auto dest: final_no_step)
  next
    case (step y')
    with step.hyps(1) have "y' = z" by (auto dest: step_deterministic)
    with step show ?thesis using step.IH step.prems by simp
  qed
qed

lemma next_target_successors: "next_target n s = Inr t \<Longrightarrow> t \<in> set (successors n)"
  by (force simp: next_target_def successors_def split: option.splits sum.splits
      dest!: map_of_SomeD)

lemma graph_validated:
  "\<forall>n \<in> set (map fst nodes). \<forall>t \<in> set (successors n).
     t = END \<or> (t \<in> set (map fst nodes) \<and> rank t < rank n)"
  by (simp add: nodes_def successors_def conditional_edges_def edges_def END_def rank_def)


lemma rank_positive: "n \<in> set (map fst nodes) \<Longrightarrow> 0 < rank n"
  by (auto simp: nodes_def rank_def)

lemma exec_node_descends:
  assumes "n \<in> set (map fst nodes)"
  shows "final (exec_node n s tr) \<or>
         (\<exists>n' s' tr'. exec_node n s tr = Running n' s' tr' \<and>
            n' \<in> set (map fst nodes) \<and> rank n' < rank n)"
proof (cases "exec_node n s tr")
  case (Running n' s' tr')
  then obtain s1 where "next_target n s1 = Inr n'" and "n' \<noteq> END"
    by (auto simp: exec_node_def goto_def split: option.splits outcome.splits sum.splits if_splits)
  then have "n' \<in> set (successors n)" and "n' \<noteq> END"
    by (auto dest: next_target_successors)
  with graph_validated assms have "n' \<in> set (map fst nodes) \<and> rank n' < rank n"
    by blast
  with Running show ?thesis by simp
qed simp_all

lemma engine_terminates:
  "n \<in> set (map fst nodes) \<Longrightarrow> rank n \<le> k \<Longrightarrow> final (engine k (Running n s tr))"
proof (induction k arbitrary: n s tr)
  case 0
  then show ?case using rank_positive [of n] by simp
next
  case (Suc k)
  from exec_node_descends [OF Suc.prems(1), of s tr] show ?case
  proof
    assume "final (exec_node n s tr)"
    then show ?thesis by (simp add: engine_final)
  next
    assume "\<exists>n' s' tr'. exec_node n s tr = Running n' s' tr' \<and>
              n' \<in> set (map fst nodes) \<and> rank n' < rank n"
    then obtain n' s' tr' where e: "exec_node n s tr = Running n' s' tr'"
      and d: "n' \<in> set (map fst nodes)" and r: "rank n' < rank n"
      by blast
    from r Suc.prems(2) have "rank n' \<le> k" by simp
    from Suc.IH [OF d this] e show ?thesis by simp
  qed
qed

lemma exec_node_declared: "n \<in> set (map fst nodes) \<Longrightarrow> declared (exec_node n s tr)"
  using exec_node_descends [of n s tr] by (cases "exec_node n s tr") auto

lemma engine_star: "declared c \<Longrightarrow> step\<^sup>*\<^sup>* c (engine k c)"
proof (induction k arbitrary: c)
  case 0
  then show ?case by simp
next
  case (Suc k)
  show ?case
  proof (cases c)
    case (Running n s tr)
    with Suc.prems have d: "n \<in> set (map fst nodes)" by simp
    then obtain stage where "map_of nodes n = Some stage"
      by (auto dest: nodes_map_of)
    then have "step c (exec_node n s tr)"
      unfolding Running by (rule exec_node_step)
    moreover have "step\<^sup>*\<^sup>* (exec_node n s tr) (engine k (exec_node n s tr))"
      by (rule Suc.IH) (rule exec_node_declared [OF d])
    ultimately show ?thesis using Running by (simp add: converse_rtranclp_into_rtranclp)
  qed simp_all
qed

lemma entry_declared: "entry_point \<in> set (map fst nodes)"
  by (simp add: entry_point_def nodes_def)

lemma invoke_final: "final (invoke s0)"
  unfolding invoke_def
  by (rule engine_terminates [OF entry_declared])
     (simp add: rank_def entry_point_def nodes_def fuel_def)

lemma runs_invoke: "runs s0 (invoke s0)"
  unfolding runs_def
proof
  show "step\<^sup>*\<^sup>* (Running entry_point s0 []) (invoke s0)"
    unfolding invoke_def by (rule engine_star) (simp add: entry_declared del: set_map)
  show "final (invoke s0)" by (rule invoke_final)
qed

lemma runs_unique: "runs s0 c \<Longrightarrow> c = invoke s0"
  using runs_invoke [of s0] unfolding runs_def by (blast intro: star_step_final)

section \<open>The graph, node by node\<close>

lemma exec_intake:
  "exec_node ''INTAKE'' s tr =
     (case stage_intake s of
        Raised e s' \<Rightarrow> Failed e s' (tr @ [''INTAKE''])
      | Returned s' \<Rightarrow> Running ''UNDERSTAND'' s' (tr @ [''INTAKE'']))"
  by (simp add: exec_node_def next_target_def nodes_def edges_def conditional_edges_def
        goto_def END_def split: outcome.split)

lemma exec_understand:
  "exec_node ''UNDERSTAND'' s tr =
     (case stage_understand s of
        Raised e s' \<Rightarrow> Failed e s' (tr @ [''UNDERSTAND''])
      | Returned s' \<Rightarrow> Running ''PREPARE'' s' (tr @ [''UNDERSTAND'']))"
  by (simp add: exec_node_def next_target_def nodes_def edges_def conditional_edges_def
        goto_def END_def split: outcome.split)

lemma exec_prepare:
  "exec_node ''PREPARE'' s tr =
     (case stage_prepare s of
        Raised e s' \<Rightarrow> Failed e s' (tr @ [''PREPARE''])
      | Returned s' \<Rightarrow> Running ''RETRIEVE'' s' (tr @ [''PREPARE'']))"
  by (simp add: exec_node_def next_target_def nodes_def edges_def conditional_edges_def
        goto_def END_def split: outcome.split)

lemma exec_retrieve:
  "exec_node ''RETRIEVE'' s tr =
     (case stage_retrieve s of
        Raised e s' \<Rightarrow> Failed e s' (tr @ [''RETRIEVE''])
      | Returned s' \<Rightarrow> Running ''DECIDE'' s' (tr @ [''RETRIEVE'']))"
  by (simp add: exec_node_def next_target_def nodes_def edges_def conditional_edges_def
        goto_def END_def split: outcome.split)

lemma exec_decide:
  "exec_node ''DECIDE'' s tr =
     (case stage_decide s of
        Raised e s' \<Rightarrow> Failed e s' (tr @ [''DECIDE''])
      | Returned s' \<Rightarrow>
          (case route_after_decision s' of
             Inl e \<Rightarrow> Failed e s' (tr @ [''DECIDE''])
           | Inr label \<Rightarrow>
               if label = ''CREATE'' then Running ''CREATE'' s' (tr @ [''DECIDE''])
               else if label = ''UPDATE'' then Running ''UPDATE'' s' (tr @ [''DECIDE''])
               else Failed (UnhandledRouteLabel label) s' (tr @ [''DECIDE''])))"
  by (simp add: exec_node_def next_target_def nodes_def edges_def conditional_edges_def
        goto_def END_def split: outcome.split sum.split)

lemma exec_create:
  "exec_node ''CREATE'' s tr =
     (case stage_create s of
        Raised e s' \<Rightarrow> Failed e s' (tr @ [''CREATE''])
      | Returned s' \<Rightarrow> Running ''DO'' s' (tr @ [''CREATE'']))"
  by (simp add: exec_node_def next_target_def nodes_def edges_def conditional_edges_def
        goto_def END_def split: outcome.split)

lemma exec_update:
  "exec_node ''UPDATE'' s tr =
     (case stage_update s of
        Raised e s' \<Rightarrow> Failed e s' (tr @ [''UPDATE''])
      | Returned s' \<Rightarrow> Running ''DO'' s' (tr @ [''UPDATE'']))"
  by (simp add: exec_node_def next_target_def nodes_def edges_def conditional_edges_def
        goto_def END_def split: outcome.split)

lemma exec_do:
  "exec_node ''DO'' s tr =
     (case stage_do s of
        Raised e s' \<Rightarrow> Failed e s' (tr @ [''DO''])
      | Returned s' \<Rightarrow>
          (case route_after_do s' of
             Inl e \<Rightarrow> Failed e s' (tr @ [''DO''])
           | Inr label \<Rightarrow>
               if label = ''CLOSE'' then Running ''CLOSE'' s' (tr @ [''DO''])
               else if label = END then Done s' (tr @ [''DO''])
               else Failed (UnhandledRouteLabel label) s' (tr @ [''DO''])))"
  by (simp add: exec_node_def next_target_def nodes_def edges_def conditional_edges_def
        goto_def END_def split: outcome.split sum.split)

lemma exec_close:
  "exec_node ''CLOSE'' s tr =
     (case stage_close s of
        Raised e s' \<Rightarrow> Failed e s' (tr @ [''CLOSE''])
      | Returned s' \<Rightarrow> Running ''COMPLETE'' s' (tr @ [''CLOSE'']))"
  by (simp add: exec_node_def next_target_def nodes_def edges_def conditional_edges_def
        goto_def END_def split: outcome.split)

lemma exec_complete:
  "exec_node ''COMPLETE'' s tr =
     (case stage_complete s of
        Raised e s' \<Rightarrow> Failed e s' (tr @ [''COMPLETE''])
      | Returned s' \<Rightarrow> Done s' (tr @ [''COMPLETE'']))"
  by (simp add: exec_node_def next_target_def nodes_def edges_def conditional_edges_def
        goto_def END_def split: outcome.split)

lemmas exec_graph = exec_intake exec_understand exec_prepare exec_retrieve exec_decide
  exec_create exec_update exec_do exec_close exec_complete

section \<open>Determinism\<close>

text \<open>
  Claim C9. The compiled workflow is deterministic: two runs from the same initial state
  end in the same configuration, so they have executed the same sequence of stages and
  hold the same final state, the log included. The capabilities are the functions of the
  source; the relation \<open>step\<close> reads the tables of the graph as relations, and the proof
  rests on each table being functional.
\<close>

theorem workflow_deterministic:
  assumes "runs s0 c1" and "runs s0 c2"
  shows "trace c1 = trace c2 \<and> state_at c1 = state_at c2 \<and>
         log (state_at c1) = log (state_at c2) \<and> c1 = c2"
proof -
  from assms have "c1 = c2"
    unfolding runs_def by (blast intro: star_step_final)
  then show ?thesis by simp
qed

theorem workflow_deterministic_witness:
  "runs sample_input (invoke sample_input) \<and>
   runs sample_input (engine 9 (Running entry_point sample_input [])) \<and>
   trace (invoke sample_input) = trace (engine 9 (Running entry_point sample_input [])) \<and>
   engine 9 (Running entry_point sample_input []) = invoke sample_input"
proof -
  have a: "runs sample_input (invoke sample_input)"
    by (rule runs_invoke)
  have "step\<^sup>*\<^sup>* (Running entry_point sample_input [])
          (engine 9 (Running entry_point sample_input []))"
    by (rule engine_star) (simp add: entry_declared del: set_map)
  moreover have "final (engine 9 (Running entry_point sample_input []))"
    by (rule engine_terminates [OF entry_declared])
       (simp add: rank_def entry_point_def nodes_def)
  ultimately have b: "runs sample_input (engine 9 (Running entry_point sample_input []))"
    by (simp add: runs_def)
  from workflow_deterministic [OF a b] a b show ?thesis by simp
qed

section \<open>DECIDE: the threshold\<close>

lemma solution_evaluation_empty: "solution_evaluation [] = [(''solution_score'', 75)]"
  by (simp add: solution_evaluation_def get_default_def lower_def)

lemma solution_evaluation_kb_123: "solution_evaluation kb_123 = [(''solution_score'', 95)]"
  by code_simp

lemma escalation_merged:
  "merge [(''score'', VInt score), (''outcome'', VStr ''ESCALATE'')]
         (map (\<lambda>(k, v). (k, VStr v)) (escalation_decision t)) =
   [(''score'', VInt score), (''outcome'', VStr ''ESCALATE''),
    (''escalation_status'', VStr ''Assigned to Tier 2 Support'')]"
  by (simp add: merge_def escalation_decision_def)




section \<open>The router after DECIDE\<close>

lemma stage_decide_raises_KeyError:
  "stage_decide s = Raised e s' \<Longrightarrow> \<exists>k. e = KeyError k"
  by (auto simp: stage_decide_def stage_decide_with_def log_append_def subscript_def Let_def
      split: option.splits sum.splits if_splits)

text \<open>
  Claim C5. For every state, the router after DECIDE returns CREATE exactly when
  \<^verbatim>\<open>decision.outcome\<close> is CREATE_RESPONSE, and UPDATE exactly when it is any other value,
  by the \<^verbatim>\<open>else\<close> of the router; it returns no third label. The path map of DECIDE has an
  entry for both labels, and no step of the engine from DECIDE fails with
  UnhandledRouteLabel.
\<close>

theorem route_after_decision_exhaustive:
  "(route_after_decision s = Inr ''CREATE'' \<longleftrightarrow>
      (\<exists>d. decision s = Some d \<and> subscript d ''outcome'' = Inr (VStr ''CREATE_RESPONSE'')))
   \<and> (route_after_decision s = Inr ''UPDATE'' \<longleftrightarrow>
      (\<exists>d v. decision s = Some d \<and> subscript d ''outcome'' = Inr v \<and> v \<noteq> VStr ''CREATE_RESPONSE''))
   \<and> (\<forall>label. route_after_decision s = Inr label \<longrightarrow> label = ''CREATE'' \<or> label = ''UPDATE'')
   \<and> (\<exists>path_map. map_of conditional_edges ''DECIDE'' = Some (route_after_decision, path_map) \<and>
         map_of path_map ''CREATE'' = Some ''CREATE'' \<and> map_of path_map ''UPDATE'' = Some ''UPDATE'')
   \<and> (\<forall>tr c. step (Running ''DECIDE'' s tr) c \<longrightarrow>
         (\<forall>label s' tr'. c \<noteq> Failed (UnhandledRouteLabel label) s' tr'))"
proof (intro conjI)
  show "route_after_decision s = Inr ''CREATE'' \<longleftrightarrow>
      (\<exists>d. decision s = Some d \<and> subscript d ''outcome'' = Inr (VStr ''CREATE_RESPONSE''))"
    by (auto simp: route_after_decision_def split: option.splits sum.splits)
  show "route_after_decision s = Inr ''UPDATE'' \<longleftrightarrow>
      (\<exists>d v. decision s = Some d \<and> subscript d ''outcome'' = Inr v \<and> v \<noteq> VStr ''CREATE_RESPONSE'')"
    by (auto simp: route_after_decision_def split: option.splits sum.splits)
  show "\<forall>label. route_after_decision s = Inr label \<longrightarrow> label = ''CREATE'' \<or> label = ''UPDATE''"
    by (auto simp: route_after_decision_def split: option.splits sum.splits if_splits)
  show "\<exists>path_map. map_of conditional_edges ''DECIDE'' = Some (route_after_decision, path_map) \<and>
         map_of path_map ''CREATE'' = Some ''CREATE'' \<and> map_of path_map ''UPDATE'' = Some ''UPDATE''"
    by (simp add: conditional_edges_def)
  show "\<forall>tr c. step (Running ''DECIDE'' s tr) c \<longrightarrow>
         (\<forall>label s' tr'. c \<noteq> Failed (UnhandledRouteLabel label) s' tr')"
  proof (intro allI impI)
    fix tr c label s' tr'
    assume "step (Running ''DECIDE'' s tr) c"
    then have c: "c = exec_node ''DECIDE'' s tr"
      by (auto dest: step_exec_node)
    show "c \<noteq> Failed (UnhandledRouteLabel label) s' tr'"
    proof
      assume "c = Failed (UnhandledRouteLabel label) s' tr'"
      with c show False
        by (auto simp: exec_decide route_after_decision_def subscript_def
            split: outcome.splits sum.splits option.splits if_splits
            dest: stage_decide_raises_KeyError)
    qed
  qed
qed

theorem route_after_decision_exhaustive_witness:
  "route_after_decision (decided (VStr ''CREATE_RESPONSE'')) = Inr ''CREATE'' \<and>
   route_after_decision (decided (VStr ''ESCALATE'')) = Inr ''UPDATE'' \<and>
   route_after_decision (decided (VInt 7)) = Inr ''UPDATE'' \<and>
   step (Running ''DECIDE'' ticket_state []) (exec_node ''DECIDE'' ticket_state []) \<and>
   exec_node ''DECIDE'' ticket_state [] \<noteq>
     Failed (UnhandledRouteLabel ''UPDATE'') ticket_state [''DECIDE'']"
proof -
  have d: "decision (decided v) = Some [(''score'', VInt 75), (''outcome'', v)]" for v
    by (simp add: decided_def no_ticket_state_def)
  have o: "subscript [(''score'', VInt 75), (''outcome'', v)] ''outcome'' = Inr v" for v :: pyval
    by (simp add: subscript_def)
  have st: "step (Running ''DECIDE'' ticket_state []) (exec_node ''DECIDE'' ticket_state [])"
    by (rule exec_node_step [of _ stage_decide]) (simp add: nodes_def)
  from route_after_decision_exhaustive [of "decided (VStr ''CREATE_RESPONSE'')"]
    route_after_decision_exhaustive [of "decided (VStr ''ESCALATE'')"]
    route_after_decision_exhaustive [of "decided (VInt 7)"]
    route_after_decision_exhaustive [of ticket_state] d o st
  show ?thesis by auto
qed

section \<open>DO: the frame\<close>

text \<open>
  Claim C8. The DO stage changes no field but the log: whether it returns or raises, the
  state it leaves is the state it was given with the DO entry appended to its log, and
  every other field, the final response, the final status, the decision, the three data
  dicts and the ticket identity among them, is as it was.
\<close>

theorem stage_do_frame:
  "state_of (stage_do s) =
     s\<lparr>log := map_option (\<lambda>l. l @ [check_mark @ '' STAGE: DO'']) (log s)\<rparr>
   \<and> customer_name (state_of (stage_do s)) = customer_name s
   \<and> email (state_of (stage_do s)) = email s
   \<and> query (state_of (stage_do s)) = query s
   \<and> priority (state_of (stage_do s)) = priority s
   \<and> ticket_id (state_of (stage_do s)) = ticket_id s
   \<and> structured_data (state_of (stage_do s)) = structured_data s
   \<and> enriched_data (state_of (stage_do s)) = enriched_data s
   \<and> retrieved_kb_article (state_of (stage_do s)) = retrieved_kb_article s
   \<and> decision (state_of (stage_do s)) = decision s
   \<and> final_response (state_of (stage_do s)) = final_response s
   \<and> final_status (state_of (stage_do s)) = final_status s"
  by (simp add: stage_do_def log_append_def Let_def split: option.splits)

section \<open>The log only grows\<close>

lemma state_at_exec_node:
  "map_of nodes n = Some stage \<Longrightarrow> state_at (exec_node n s tr) = state_of (stage s)"
  by (simp add: exec_node_def goto_def split: outcome.splits sum.splits)


lemma stage_appends:
  assumes "(n, stage) \<in> set nodes" and "log s = Some l"
  shows "\<exists>es. es \<noteq> [] \<and> log (state_of (stage s)) = Some (l @ es)"
proof -
  from assms(1) consider "stage = stage_intake" | "stage = stage_understand"
    | "stage = stage_prepare" | "stage = stage_retrieve" | "stage = stage_decide"
    | "stage = stage_create" | "stage = stage_update" | "stage = stage_do"
    | "stage = stage_close" | "stage = stage_complete"
    by (auto simp: nodes_def)
  then show ?thesis
  proof cases
    case 1
    with assms(2) show ?thesis
      by (simp add: stage_intake_def log_append_def)
  next
    case 2
    with assms(2) show ?thesis
      by (simp add: stage_understand_def log_append_def split: option.splits)
  next
    case 3
    with assms(2) show ?thesis
      by (simp add: stage_prepare_def log_append_def split: option.splits sum.splits)
  next
    case 4
    with assms(2) show ?thesis
      by (simp add: stage_retrieve_def log_append_def split: option.splits sum.splits)
  next
    case 5
    with assms(2) show ?thesis
      by (simp add: stage_decide_def stage_decide_with_def log_append_def Let_def
          split: option.splits sum.splits)
  next
    case 6
    with assms(2) show ?thesis
      by (simp add: stage_create_def log_append_def split: option.splits sum.splits)
  next
    case 7
    with assms(2) show ?thesis
      by (simp add: stage_update_def log_append_def Let_def split: option.splits)
  next
    case 8
    with assms(2) show ?thesis
      by (simp add: stage_do_def log_append_def Let_def split: option.splits)
  next
    case 9
    with assms(2) show ?thesis
      by (simp add: stage_close_def log_append_def Let_def split: option.splits)
  next
    case 10
    with assms(2) show ?thesis
      by (simp add: stage_complete_def log_append_def)
  qed
qed

lemma step_appends:
  assumes "step c c'" and "log (state_at c) = Some l"
  shows "\<exists>es. es \<noteq> [] \<and> log (state_at c') = Some (l @ es)"
proof -
  from assms(1) obtain n s tr where c: "c = Running n s tr"
    and c': "c' = exec_node n s tr"
    by (auto dest!: step_exec_node)
  from assms(1) c obtain stage where m: "(n, stage) \<in> set nodes"
    by (auto elim: step.cases)
  from m have "map_of nodes n = Some stage" by (rule nodes_map_of)
  then have "state_at c' = state_of (stage s)"
    unfolding c' by (rule state_at_exec_node)
  with stage_appends [OF m, of s l] assms(2) c show ?thesis by simp
qed

lemma star_step_appends:
  assumes "step\<^sup>*\<^sup>* c c'" and "log (state_at c) = Some l"
  shows "\<exists>es. log (state_at c') = Some (l @ es)"
  using assms
proof (induction rule: rtranclp_induct)
  case base
  then show ?case by simp
next
  case (step y z)
  then obtain es where "log (state_at y) = Some (l @ es)" by blast
  from step_appends [OF step.hyps(2) this] show ?case by auto
qed

text \<open>
  Claim C6. Every stage of the graph, run on a state with a log, leaves the old log with at
  least one entry appended at its end, whether it returns or raises. So does every step of
  the engine, which is one stage execution; and across any part of a run the old log is a
  prefix of the new one: nothing is removed, reordered or truncated, and the length of the
  log never falls.
\<close>

theorem log_append_only:
  "(\<forall>stage n s. (n, stage) \<in> set nodes \<and> log s = Some l \<longrightarrow>
       (\<exists>es. es \<noteq> [] \<and> log (state_of (stage s)) = Some (l @ es)))
   \<and> (step c c' \<and> log (state_at c) = Some l \<longrightarrow>
       (\<exists>es. es \<noteq> [] \<and> log (state_at c') = Some (l @ es) \<and> length l < length (l @ es)))
   \<and> (step\<^sup>*\<^sup>* c c' \<and> log (state_at c) = Some l \<longrightarrow>
       (\<exists>es. log (state_at c') = Some (l @ es) \<and> length l \<le> length (l @ es)))"
  using stage_appends step_appends [of c c' l] star_step_appends [of c c' l]
  by auto


theorem log_append_only_witness:
  "(''INTAKE'', stage_intake) \<in> set nodes \<and> log sample_input = Some [] \<and>
   (\<exists>es. es \<noteq> [] \<and> log (state_of (stage_intake sample_input)) = Some ([] @ es)) \<and>
   step (Running ''INTAKE'' sample_input []) (exec_node ''INTAKE'' sample_input []) \<and>
   (\<exists>es. es \<noteq> [] \<and> log (state_at (exec_node ''INTAKE'' sample_input [])) = Some ([] @ es)) \<and>
   step\<^sup>*\<^sup>* (Running ''INTAKE'' sample_input []) (invoke sample_input) \<and>
   (\<exists>es. log (state_at (invoke sample_input)) = Some ([] @ es))"
proof -
  have m: "(''INTAKE'', stage_intake) \<in> set nodes"
    by (simp add: nodes_def)
  have l: "log sample_input = Some []"
    by (simp add: sample_input_def)
  have st: "step (Running ''INTAKE'' sample_input []) (exec_node ''INTAKE'' sample_input [])"
    by (rule exec_node_step [of _ stage_intake]) (simp add: nodes_def)
  have star: "step\<^sup>*\<^sup>* (Running ''INTAKE'' sample_input []) (invoke sample_input)"
    using runs_invoke [of sample_input] by (simp add: runs_def entry_point_def)
  from log_append_only [of "[]" "Running ''INTAKE'' sample_input []"
      "exec_node ''INTAKE'' sample_input []"]
    log_append_only [of "[]" "Running ''INTAKE'' sample_input []" "invoke sample_input"]
    m l st star
  show ?thesis by (auto simp del: append_Nil)
qed

section \<open>Missing fields\<close>




section \<open>An invariant of the configurations of a run\<close>

lemma str_int_95: "str_int 95 = ''95''"
  by code_simp

lemma str_int_75: "str_int 75 = ''75''"
  by code_simp

lemma add_flags_raises: "add_flags_calculations p q = Inl e \<Longrightarrow> e = OverflowError"
  by (auto simp: add_flags_calculations_def Let_def split: if_splits)

lemma py_in_raises: "py_in x v = Inl e \<Longrightarrow> e = TypeError"
  by (auto simp: py_in_def split: pyval.splits)

lemma response_generation_raises: "response_generation c q a = Inl e \<Longrightarrow> \<exists>k. e = KeyError k"
  by (auto simp: response_generation_def subscript_def split: option.splits sum.splits)

lemma inv_intake: "run_inv s0 (exec_node ''INTAKE'' s0 [])"
  by (simp add: exec_intake stage_intake_def log_append_def on_path_def resolved_path_def
        resolved_log_def split: option.splits)

lemma inv_understand:
  "on_path s0 resolved_path resolved_log 1 1 s tr \<Longrightarrow> run_inv s0 (exec_node ''UNDERSTAND'' s tr)"
  by (auto simp: exec_understand stage_understand_def log_append_def on_path_def resolved_path_def
        resolved_log_def split: option.splits)

lemma inv_prepare:
  "on_path s0 resolved_path resolved_log 2 2 s tr \<Longrightarrow> run_inv s0 (exec_node ''PREPARE'' s tr)"
  by (auto simp: exec_prepare stage_prepare_def log_append_def on_path_def resolved_path_def
        resolved_log_def contactable_def split: option.splits sum.splits
        dest!: add_flags_raises)

lemma inv_retrieve:
  "on_path s0 resolved_path resolved_log 3 3 s tr \<Longrightarrow> contactable s \<Longrightarrow>
   run_inv s0 (exec_node ''RETRIEVE'' s tr)"
  by (auto simp: exec_retrieve stage_retrieve_def log_append_def on_path_def resolved_path_def
        resolved_log_def contactable_def knowledge_base_search_def subscript_def
        split: option.splits sum.splits if_splits dest!: py_in_raises)

lemma inv_decide:
  assumes "on_path s0 resolved_path resolved_log 4 4 s tr" and "contactable s"
    and "retrieved_kb_article s = Some [] \<or> retrieved_kb_article s = Some kb_123"
  shows "run_inv s0 (exec_node ''DECIDE'' s tr)"
  using assms(3)
proof
  assume "retrieved_kb_article s = Some []"
  with assms(1,2) show ?thesis
    by (auto simp: exec_decide stage_decide_def stage_decide_with_def log_append_def on_path_def
        resolved_path_def resolved_log_def escalated_path_def escalated_log_def contactable_def
        solution_evaluation_empty subscript_def escalation_merged route_after_decision_def
        str_int_75 Let_def)
next
  assume "retrieved_kb_article s = Some kb_123"
  with assms(1,2) show ?thesis
    by (auto simp: exec_decide stage_decide_def stage_decide_with_def log_append_def on_path_def
        resolved_path_def resolved_log_def contactable_def
        solution_evaluation_kb_123 subscript_def route_after_decision_def
        str_int_95 Let_def)
qed

lemma inv_create:
  "on_path s0 resolved_path resolved_log 5 6 s tr \<Longrightarrow> contactable s \<Longrightarrow>
   run_inv s0 (exec_node ''CREATE'' s tr)"
  by (auto simp: exec_create stage_create_def log_append_def on_path_def resolved_path_def
        resolved_log_def contactable_def subscript_def
        split: option.splits sum.splits dest!: response_generation_raises)

lemma inv_update:
  "on_path s0 escalated_path escalated_log 5 6 s tr \<Longrightarrow> contactable s \<Longrightarrow>
   run_inv s0 (exec_node ''UPDATE'' s tr)"
  by (auto simp: exec_update stage_update_def log_append_def on_path_def escalated_path_def
        escalated_log_def contactable_def Let_def)

lemma inv_do_resolved:
  "on_path s0 resolved_path resolved_log 6 7 s tr \<Longrightarrow> contactable s \<Longrightarrow>
   final_response s \<noteq> None \<Longrightarrow> final_status s = Some ''RESOLVED'' \<Longrightarrow>
   run_inv s0 (exec_node ''DO'' s tr)"
  by (auto simp: exec_do stage_do_def log_append_def on_path_def resolved_path_def
        resolved_log_def contactable_def route_after_do_def Let_def)

lemma inv_do_escalated:
  "on_path s0 escalated_path escalated_log 6 7 s tr \<Longrightarrow> contactable s \<Longrightarrow>
   final_response s \<noteq> None \<Longrightarrow> final_status s = Some ''ESCALATED'' \<Longrightarrow>
   run_inv s0 (exec_node ''DO'' s tr)"
  by (auto simp: exec_do stage_do_def log_append_def on_path_def escalated_path_def
        escalated_log_def contactable_def route_after_do_def Let_def END_def)

lemma inv_close:
  "on_path s0 resolved_path resolved_log 7 8 s tr \<Longrightarrow> contactable s \<Longrightarrow>
   final_status s = Some ''RESOLVED'' \<Longrightarrow> run_inv s0 (exec_node ''CLOSE'' s tr)"
  by (auto simp: exec_close stage_close_def log_append_def on_path_def resolved_path_def
        resolved_log_def contactable_def Let_def)

lemma inv_complete:
  "on_path s0 resolved_path resolved_log 8 9 s tr \<Longrightarrow>
   final_status s = Some ''RESOLVED'' \<Longrightarrow> run_inv s0 (exec_node ''COMPLETE'' s tr)"
  by (auto simp: exec_complete stage_complete_def log_append_def on_path_def resolved_path_def
        resolved_log_def)

lemma inv_exec_node: "run_inv s0 (Running n s tr) \<Longrightarrow> run_inv s0 (exec_node n s tr)"
  unfolding run_inv.simps(1)
  by (elim disjE conjE; hypsubst)
     (blast intro: inv_intake inv_understand inv_prepare inv_retrieve inv_decide inv_create
        inv_update inv_do_resolved inv_do_escalated inv_close inv_complete)+

lemma inv_step: "run_inv s0 c \<Longrightarrow> step c c' \<Longrightarrow> run_inv s0 c'"
  by (auto dest!: step_exec_node intro: inv_exec_node simp del: run_inv.simps)

lemma inv_reached: "step\<^sup>*\<^sup>* (Running entry_point s0 []) c \<Longrightarrow> run_inv s0 c"
proof (induction rule: rtranclp_induct)
  case base
  show ?case by (simp add: entry_point_def)
next
  case (step y z)
  then show ?case by (blast intro: inv_step)
qed

section \<open>The final status\<close>

lemma nodes_cases:
  assumes "(n, stage) \<in> set nodes"
  shows "(n = ''INTAKE'' \<and> stage = stage_intake) \<or> (n = ''UNDERSTAND'' \<and> stage = stage_understand)
       \<or> (n = ''PREPARE'' \<and> stage = stage_prepare) \<or> (n = ''RETRIEVE'' \<and> stage = stage_retrieve)
       \<or> (n = ''DECIDE'' \<and> stage = stage_decide) \<or> (n = ''CREATE'' \<and> stage = stage_create)
       \<or> (n = ''UPDATE'' \<and> stage = stage_update) \<or> (n = ''DO'' \<and> stage = stage_do)
       \<or> (n = ''CLOSE'' \<and> stage = stage_close) \<or> (n = ''COMPLETE'' \<and> stage = stage_complete)"
  using assms unfolding nodes_def by simp

lemma nodes_cases_other:
  assumes "(n, stage) \<in> set nodes" and "n \<noteq> ''CREATE''" and "n \<noteq> ''UPDATE''"
  shows "stage = stage_intake \<or> stage = stage_understand
       \<or> stage = stage_prepare \<or> stage = stage_retrieve
       \<or> stage = stage_decide \<or> stage = stage_do
       \<or> stage = stage_close \<or> stage = stage_complete"
  using nodes_cases [OF assms(1)] assms(2,3) by blast



lemma log_append_None: "log s = None \<Longrightarrow> log_append m s = Inl (KeyError ''log'')"
  by (simp add: log_append_def)

lemma log_append_Some: "log s = Some l \<Longrightarrow> log_append m s = Inr (s\<lparr>log := Some (l @ [m])\<rparr>)"
  by (simp add: log_append_def)

lemma frame_final_status:
  assumes "(n, stage) \<in> set nodes" and "n \<noteq> ''CREATE''" and "n \<noteq> ''UPDATE''"
  shows "final_status (state_of (stage s)) = final_status s"
proof -
  from nodes_cases_other [OF assms]
  consider "stage = stage_intake" | "stage = stage_understand"
    | "stage = stage_prepare" | "stage = stage_retrieve" | "stage = stage_decide"
    | "stage = stage_do" | "stage = stage_close" | "stage = stage_complete"
    by blast
  then show ?thesis
  proof cases
    case 1
    then show ?thesis
      by (cases "log s") (simp_all add: stage_intake_def log_append_None log_append_Some)
  next
    case 2
    then show ?thesis
      by (cases "log s")
         (simp_all add: stage_understand_def log_append_None log_append_Some split: option.splits)
  next
    case 3
    then show ?thesis
      by (cases "log s")
         (simp_all add: stage_prepare_def log_append_None log_append_Some
            split: option.splits sum.splits)
  next
    case 4
    then show ?thesis
      by (cases "log s")
         (simp_all add: stage_retrieve_def log_append_None log_append_Some
            split: option.splits sum.splits)
  next
    case 5
    then show ?thesis
      by (cases "log s")
         (simp_all add: stage_decide_def stage_decide_with_def log_append_None log_append_Some
            Let_def split: option.splits sum.splits)
  next
    case 6
    then show ?thesis
      by (cases "log s")
         (simp_all add: stage_do_def log_append_None log_append_Some Let_def split: option.splits)
  next
    case 7
    then show ?thesis
      by (cases "log s")
         (simp_all add: stage_close_def log_append_None log_append_Some Let_def
            split: option.splits)
  next
    case 8
    then show ?thesis
      by (cases "log s") (simp_all add: stage_complete_def log_append_None log_append_Some)
  qed
qed

lemma completed_run:
  assumes "runs s0 (Done s tr)"
  shows "(on_path s0 resolved_path resolved_log 9 10 s tr \<and> final_status s = Some ''RESOLVED'')
       \<or> (on_path s0 escalated_path escalated_log 7 8 s tr \<and> final_status s = Some ''ESCALATED'')"
  using inv_reached [of s0 "Done s tr"] assms by (simp add: runs_def)

lemma completed_run_paths:
  assumes "runs s0 (Done s tr)"
  shows "(tr = resolved_path \<and> final_status s = Some ''RESOLVED'')
       \<or> (tr = escalated_path \<and> final_status s = Some ''ESCALATED'')"
  using completed_run [OF assms]
  by (auto simp: on_path_def resolved_path_def escalated_path_def)

text \<open>
  Claim C3. In every completed run the final status is RESOLVED if and only if the run has
  executed CREATE, and ESCALATED if and only if it has executed UPDATE; the run has executed
  exactly one of the two, once. The final status is written exactly once: CREATE and UPDATE
  write it when they return, and no other stage of the graph changes it.
\<close>

theorem final_status_matches_path:
  assumes "runs s0 (Done s tr)"
  shows "(final_status s = Some ''RESOLVED'' \<longleftrightarrow> ''CREATE'' \<in> set tr)
       \<and> (final_status s = Some ''ESCALATED'' \<longleftrightarrow> ''UPDATE'' \<in> set tr)
       \<and> (''CREATE'' \<in> set tr \<longleftrightarrow> ''UPDATE'' \<notin> set tr)
       \<and> length (filter (\<lambda>n. n = ''CREATE'' \<or> n = ''UPDATE'') tr) = 1
       \<and> (\<forall>n stage s1. (n, stage) \<in> set nodes \<and> n \<noteq> ''CREATE'' \<and> n \<noteq> ''UPDATE'' \<longrightarrow>
             final_status (state_of (stage s1)) = final_status s1)
       \<and> (\<forall>s1 s2. stage_create s1 = Returned s2 \<longrightarrow> final_status s2 = Some ''RESOLVED'')
       \<and> (\<forall>s1 s2. stage_update s1 = Returned s2 \<longrightarrow> final_status s2 = Some ''ESCALATED'')"
proof -
  have a: "(final_status s = Some ''RESOLVED'' \<longleftrightarrow> ''CREATE'' \<in> set tr)
       \<and> (final_status s = Some ''ESCALATED'' \<longleftrightarrow> ''UPDATE'' \<in> set tr)
       \<and> (''CREATE'' \<in> set tr \<longleftrightarrow> ''UPDATE'' \<notin> set tr)
       \<and> length (filter (\<lambda>n. n = ''CREATE'' \<or> n = ''UPDATE'') tr) = 1"
    using completed_run_paths [OF assms]
  proof
    assume "tr = resolved_path \<and> final_status s = Some ''RESOLVED''"
    then show ?thesis by (simp add: resolved_path_def)
  next
    assume "tr = escalated_path \<and> final_status s = Some ''ESCALATED''"
    then show ?thesis by (simp add: escalated_path_def)
  qed
  have b: "\<forall>s1 s2. stage_create s1 = Returned s2 \<longrightarrow> final_status s2 = Some ''RESOLVED''"
  proof (intro allI impI)
    fix s1 s2 assume "stage_create s1 = Returned s2"
    then show "final_status s2 = Some ''RESOLVED''"
      by (cases "log s1")
         (auto simp: stage_create_def log_append_None log_append_Some
            split: option.splits sum.splits)
  qed
  have c: "\<forall>s1 s2. stage_update s1 = Returned s2 \<longrightarrow> final_status s2 = Some ''ESCALATED''"
  proof (intro allI impI)
    fix s1 s2 assume "stage_update s1 = Returned s2"
    then show "final_status s2 = Some ''ESCALATED''"
      by (cases "log s1")
         (auto simp: stage_update_def log_append_None log_append_Some Let_def
            split: option.splits)
  qed
  have d: "\<forall>n stage s1. (n, stage) \<in> set nodes \<and> n \<noteq> ''CREATE'' \<and> n \<noteq> ''UPDATE'' \<longrightarrow>
             final_status (state_of (stage s1)) = final_status s1"
    using frame_final_status by blast
  from a b c d show ?thesis by (intro conjI) (elim conjE, assumption)+
qed

lemma sample_run:
  "invoke sample_input = Done (state_at (invoke sample_input)) resolved_path"
  by code_simp

lemma sample_run_status: "final_status (state_at (invoke sample_input)) = Some ''RESOLVED''"
  by code_simp

lemma escalating_run:
  "invoke escalating_input = Done (state_at (invoke escalating_input)) escalated_path"
  by code_simp

lemma escalating_run_status:
  "final_status (state_at (invoke escalating_input)) = Some ''ESCALATED''"
  by code_simp

theorem final_status_matches_path_witness:
  "runs sample_input (Done (state_at (invoke sample_input)) resolved_path) \<and>
   final_status (state_at (invoke sample_input)) = Some ''RESOLVED'' \<and>
   ''CREATE'' \<in> set resolved_path \<and> ''UPDATE'' \<notin> set resolved_path \<and>
   runs escalating_input (Done (state_at (invoke escalating_input)) escalated_path) \<and>
   final_status (state_at (invoke escalating_input)) = Some ''ESCALATED'' \<and>
   ''UPDATE'' \<in> set escalated_path \<and> ''CREATE'' \<notin> set escalated_path"
proof -
  have a: "runs sample_input (Done (state_at (invoke sample_input)) resolved_path)"
    using runs_invoke [of sample_input] sample_run by simp
  have b: "runs escalating_input (Done (state_at (invoke escalating_input)) escalated_path)"
    using runs_invoke [of escalating_input] escalating_run by simp
  from final_status_matches_path [OF a] final_status_matches_path [OF b] a b
    sample_run_status escalating_run_status
  show ?thesis by simp
qed

lemma stage_returned_log:
  assumes "(n, stage) \<in> set nodes" and "stage s1 = Returned s2"
  shows "\<exists>l. log s1 = Some l \<and>
           (if n = ''DECIDE''
            then (\<exists>score verdict d.
                    log s2 = Some (l @ [stage_header n,
                                        ''  Decision Logic: Score is '' @ str_int score @ ''. '' @ verdict]) \<and>
                    decision s2 = Some d \<and> map_of d ''score'' = Some (VInt score))
            else log s2 = Some (l @ [stage_header n]))"
proof (cases "log s1")
  case None
  from nodes_cases [OF assms(1)] assms(2) None show ?thesis
    by (elim disjE conjE)
       (simp_all add: stage_intake_def stage_understand_def stage_prepare_def stage_retrieve_def
          stage_decide_def stage_decide_with_def stage_create_def stage_update_def stage_do_def
          stage_close_def stage_complete_def log_append_None)
next
  case (Some l)
  from nodes_cases [OF assms(1)] show ?thesis
  proof (elim disjE conjE)
    assume "n = ''INTAKE''" "stage = stage_intake"
    with assms(2) Some show ?thesis
      by (auto simp: stage_intake_def log_append_Some stage_header_def)
  next
    assume "n = ''UNDERSTAND''" "stage = stage_understand"
    with assms(2) Some show ?thesis
      by (auto simp: stage_understand_def log_append_Some stage_header_def split: option.splits)
  next
    assume "n = ''PREPARE''" "stage = stage_prepare"
    with assms(2) Some show ?thesis
      by (auto simp: stage_prepare_def log_append_Some stage_header_def
          split: option.splits sum.splits)
  next
    assume "n = ''RETRIEVE''" "stage = stage_retrieve"
    with assms(2) Some show ?thesis
      by (auto simp: stage_retrieve_def log_append_Some stage_header_def
          split: option.splits sum.splits)
  next
    assume "n = ''DECIDE''" "stage = stage_decide"
    with assms(2) Some show ?thesis
      by (auto simp: stage_decide_def stage_decide_with_def log_append_Some log_append_def
          stage_header_def escalation_merged Let_def
          split: option.splits sum.splits if_splits)
  next
    assume "n = ''CREATE''" "stage = stage_create"
    with assms(2) Some show ?thesis
      by (auto simp: stage_create_def log_append_Some stage_header_def
          split: option.splits sum.splits)
  next
    assume "n = ''UPDATE''" "stage = stage_update"
    with assms(2) Some show ?thesis
      by (auto simp: stage_update_def log_append_Some stage_header_def Let_def
          split: option.splits)
  next
    assume "n = ''DO''" "stage = stage_do"
    with assms(2) Some show ?thesis
      by (auto simp: stage_do_def log_append_Some stage_header_def Let_def split: option.splits)
  next
    assume "n = ''CLOSE''" "stage = stage_close"
    with assms(2) Some show ?thesis
      by (auto simp: stage_close_def log_append_Some stage_header_def Let_def
          split: option.splits)
  next
    assume "n = ''COMPLETE''" "stage = stage_complete"
    with assms(2) Some show ?thesis
      by (auto simp: stage_complete_def log_append_Some stage_header_def)
  qed
qed

section \<open>Walking the escalation path\<close>

lemma from_retrieve_no_match:
  assumes "log s = Some l" and "ticket_id s = Some t" and "email s = Some m"
    and "structured_data s = Some sd" and "subscript sd ''extracted_entities'' = Inr (VList [])"
  shows "stage_retrieve s =
           Returned (s\<lparr>log := Some (l @ [check_mark @ '' STAGE: RETRIEVE'']),
                       retrieved_kb_article := Some []\<rparr>)"
  using assms
  by (simp add: stage_retrieve_def log_append_Some knowledge_base_search_def py_in_def
        subscript_def)

lemma from_decide_no_match:
  assumes "log s = Some l" and "ticket_id s = Some t" and "retrieved_kb_article s = Some []"
  shows "stage_decide s =
           Returned (s\<lparr>log := Some (l @ [check_mark @ '' STAGE: DECIDE'',
                          ''  Decision Logic: Score is 75. Solution score is low. Escalating to human agent.'']),
                       decision := Some [(''score'', VInt 75), (''outcome'', VStr ''ESCALATE''),
                                         (''escalation_status'', VStr ''Assigned to Tier 2 Support'')]\<rparr>)"
  using assms
  by (simp add: stage_decide_def stage_decide_with_def log_append_Some solution_evaluation_empty
        subscript_def escalation_merged str_int_75 Let_def)

lemma from_update:
  assumes "log s = Some l" and "ticket_id s = Some t"
  shows "stage_update s =
           Returned (s\<lparr>log := Some (l @ [check_mark @ '' STAGE: UPDATE'']),
                       final_response := Some ''This ticket has been escalated for human review.'',
                       final_status := Some ''ESCALATED''\<rparr>)"
  using assms by (simp add: stage_update_def log_append_Some Let_def)

lemma from_do:
  assumes "log s = Some l" and "email s = Some m" and "final_response s = Some r"
  shows "stage_do s = Returned (s\<lparr>log := Some (l @ [check_mark @ '' STAGE: DO''])\<rparr>)"
  using assms by (simp add: stage_do_def log_append_Some Let_def)

lemma from_close:
  assumes "log s = Some l" and "ticket_id s = Some t"
  shows "stage_close s = Returned (s\<lparr>log := Some (l @ [check_mark @ '' STAGE: CLOSE''])\<rparr>)"
  using assms by (simp add: stage_close_def log_append_Some Let_def)

lemma from_complete:
  assumes "log s = Some l"
  shows "stage_complete s =
           Returned (s\<lparr>log := Some (l @ [check_mark @ '' STAGE: COMPLETE - Workflow finished.''])\<rparr>)"
  using assms by (simp add: stage_complete_def log_append_Some)

lemma step_exec:
  "n \<in> set (map fst nodes) \<Longrightarrow> step (Running n s tr) (exec_node n s tr)"
proof -
  assume "n \<in> set (map fst nodes)"
  then obtain stage where "(n, stage) \<in> set nodes" by auto
  then have "map_of nodes n = Some stage" by (rule nodes_map_of)
  then show ?thesis by (rule exec_node_step)
qed

lemma steps_from_retrieve_no_match:
  assumes "log s = Some l" and "ticket_id s = Some t" and "email s = Some m"
    and "structured_data s = Some sd" and "subscript sd ''extracted_entities'' = Inr (VList [])"
  shows "\<exists>s1 s2 s3.
           stage_retrieve s = Returned s1 \<and> retrieved_kb_article s1 = Some [] \<and>
           stage_decide s1 = Returned s2 \<and>
           decision s2 = Some [(''score'', VInt 75), (''outcome'', VStr ''ESCALATE''),
                               (''escalation_status'', VStr ''Assigned to Tier 2 Support'')] \<and>
           route_after_decision s2 = Inr ''UPDATE'' \<and>
           final_status s3 = Some ''ESCALATED'' \<and>
           step\<^sup>*\<^sup>* (Running ''RETRIEVE'' s tr)
             (Done s3 (tr @ [''RETRIEVE'', ''DECIDE'', ''UPDATE'', ''DO'']))"
proof -
  let ?l1 = "l @ [check_mark @ '' STAGE: RETRIEVE'']"
  let ?s1 = "s\<lparr>log := Some ?l1, retrieved_kb_article := Some []\<rparr>"
  have r: "stage_retrieve s = Returned ?s1"
    using assms by (rule from_retrieve_no_match)
  let ?l2 = "?l1 @ [check_mark @ '' STAGE: DECIDE'',
      ''  Decision Logic: Score is 75. Solution score is low. Escalating to human agent.'']"
  let ?s2 = "?s1\<lparr>log := Some ?l2,
                   decision := Some [(''score'', VInt 75), (''outcome'', VStr ''ESCALATE''),
                                     (''escalation_status'', VStr ''Assigned to Tier 2 Support'')]\<rparr>"
  have d: "stage_decide ?s1 = Returned ?s2"
    by (rule from_decide_no_match [where t = t]) (simp_all add: assms)
  have rt: "route_after_decision ?s2 = Inr ''UPDATE''"
    by (simp add: route_after_decision_def subscript_def)
  let ?l3 = "?l2 @ [check_mark @ '' STAGE: UPDATE'']"
  let ?s3 = "?s2\<lparr>log := Some ?l3,
                   final_response := Some ''This ticket has been escalated for human review.'',
                   final_status := Some ''ESCALATED''\<rparr>"
  have u: "stage_update ?s2 = Returned ?s3"
    by (rule from_update [where t = t]) (simp_all add: assms)
  let ?s4 = "?s3\<lparr>log := Some (?l3 @ [check_mark @ '' STAGE: DO''])\<rparr>"
  have o: "stage_do ?s3 = Returned ?s4"
    by (rule from_do [where m = m]) (simp_all add: assms)
  have ro: "route_after_do ?s4 = Inr END"
    by (simp add: route_after_do_def)
  have e1: "exec_node ''RETRIEVE'' s tr = Running ''DECIDE'' ?s1 (tr @ [''RETRIEVE''])"
    by (simp only: exec_retrieve r outcome.case)
  have e2: "exec_node ''DECIDE'' ?s1 (tr @ [''RETRIEVE'']) =
      Running ''UPDATE'' ?s2 (tr @ [''RETRIEVE'', ''DECIDE''])"
    by (simp only: exec_decide d rt outcome.case sum.case) simp
  have e3: "exec_node ''UPDATE'' ?s2 (tr @ [''RETRIEVE'', ''DECIDE'']) =
      Running ''DO'' ?s3 (tr @ [''RETRIEVE'', ''DECIDE'', ''UPDATE''])"
    by (simp only: exec_update u outcome.case) simp
  have e4: "exec_node ''DO'' ?s3 (tr @ [''RETRIEVE'', ''DECIDE'', ''UPDATE'']) =
      Done ?s4 (tr @ [''RETRIEVE'', ''DECIDE'', ''UPDATE'', ''DO''])"
    by (simp only: exec_do o ro outcome.case sum.case) (simp add: END_def)
  have n: "''RETRIEVE'' \<in> set (map fst nodes)" "''DECIDE'' \<in> set (map fst nodes)"
    "''UPDATE'' \<in> set (map fst nodes)" "''DO'' \<in> set (map fst nodes)"
    by (simp_all add: nodes_def)
  have "step (Running ''RETRIEVE'' s tr) (Running ''DECIDE'' ?s1 (tr @ [''RETRIEVE'']))"
    using step_exec [OF n(1), of s tr] e1 by simp
  moreover have "step (Running ''DECIDE'' ?s1 (tr @ [''RETRIEVE'']))
      (Running ''UPDATE'' ?s2 (tr @ [''RETRIEVE'', ''DECIDE'']))"
    using step_exec [OF n(2), of ?s1 "tr @ [''RETRIEVE'']"] e2 by simp
  moreover have "step (Running ''UPDATE'' ?s2 (tr @ [''RETRIEVE'', ''DECIDE'']))
      (Running ''DO'' ?s3 (tr @ [''RETRIEVE'', ''DECIDE'', ''UPDATE'']))"
    using step_exec [OF n(3), of ?s2 "tr @ [''RETRIEVE'', ''DECIDE'']"] e3 by simp
  moreover have "step (Running ''DO'' ?s3 (tr @ [''RETRIEVE'', ''DECIDE'', ''UPDATE'']))
      (Done ?s4 (tr @ [''RETRIEVE'', ''DECIDE'', ''UPDATE'', ''DO'']))"
    using step_exec [OF n(4), of ?s3 "tr @ [''RETRIEVE'', ''DECIDE'', ''UPDATE'']"] e4 by simp
  ultimately have star: "step\<^sup>*\<^sup>* (Running ''RETRIEVE'' s tr)
      (Done ?s4 (tr @ [''RETRIEVE'', ''DECIDE'', ''UPDATE'', ''DO'']))"
    by (meson converse_rtranclp_into_rtranclp rtranclp.rtrancl_refl)
  have f: "final_status ?s4 = Some ''ESCALATED''" by simp
  have a: "retrieved_kb_article ?s1 = Some []" by simp
  have dd: "decision ?s2 = Some [(''score'', VInt 75), (''outcome'', VStr ''ESCALATE''),
                               (''escalation_status'', VStr ''Assigned to Tier 2 Support'')]"
    by simp
  from r a d dd rt f star show ?thesis by blast
qed


lemma at_retrieve:
  assumes "step\<^sup>*\<^sup>* (Running entry_point s0 []) (Running ''RETRIEVE'' s tr)"
  shows "on_path s0 resolved_path resolved_log 3 3 s tr \<and> contactable s"
  using inv_reached [OF assms] by simp

lemma at_do:
  assumes "step\<^sup>*\<^sup>* (Running entry_point s0 []) (Running ''DO'' s tr)"
  shows "(on_path s0 resolved_path resolved_log 6 7 s tr \<and> contactable s \<and>
          final_response s \<noteq> None \<and> final_status s = Some ''RESOLVED'')
       \<or> (on_path s0 escalated_path escalated_log 6 7 s tr \<and> contactable s \<and>
          final_response s \<noteq> None \<and> final_status s = Some ''ESCALATED'')"
  using inv_reached [OF assms] by simp

text \<open>
  Claim C7. Take any run that arrives at RETRIEVE in a state whose
  \<^verbatim>\<open>structured_data.extracted_entities\<close> is the empty list. The knowledge-base search
  returns the empty record, and RETRIEVE stores it; DECIDE executes on it all the same, the
  scoring capability gives the empty article 75, which is below the threshold of 90, and
  the decision is ESCALATE; the router answers UPDATE, and the run completes on the
  escalation path, through UPDATE, with the final status ESCALATED.
\<close>

theorem no_match_escalates:
  assumes "step\<^sup>*\<^sup>* (Running entry_point s0 []) (Running ''RETRIEVE'' s tr)"
    and "structured_data s = Some sd"
    and "subscript sd ''extracted_entities'' = Inr (VList [])"
  shows "knowledge_base_search (VList []) = Inr [(''retrieved_kb_article'', [])]
       \<and> subscript (solution_evaluation []) ''solution_score'' = Inr 75 \<and> (75 :: int) < 90
       \<and> (\<exists>s1 s2 s3.
             stage_retrieve s = Returned s1 \<and> retrieved_kb_article s1 = Some [] \<and>
             stage_decide s1 = Returned s2 \<and>
             decision s2 = Some [(''score'', VInt 75), (''outcome'', VStr ''ESCALATE''),
                                 (''escalation_status'', VStr ''Assigned to Tier 2 Support'')] \<and>
             route_after_decision s2 = Inr ''UPDATE'' \<and>
             runs s0 (Done s3 escalated_path) \<and> ''UPDATE'' \<in> set escalated_path \<and>
             final_status s3 = Some ''ESCALATED'')"
proof -
  from at_retrieve [OF assms(1)] obtain l t m where tr: "tr = [''INTAKE'', ''UNDERSTAND'', ''PREPARE'']"
    and l: "log s = Some l" and t: "ticket_id s = Some t" and m: "email s = Some m"
    by (auto simp: on_path_def contactable_def resolved_path_def)
  from steps_from_retrieve_no_match [OF l t m assms(2,3), of tr]
  obtain s1 s2 s3 where r: "stage_retrieve s = Returned s1" "retrieved_kb_article s1 = Some []"
    "stage_decide s1 = Returned s2"
    "decision s2 = Some [(''score'', VInt 75), (''outcome'', VStr ''ESCALATE''),
                         (''escalation_status'', VStr ''Assigned to Tier 2 Support'')]"
    "route_after_decision s2 = Inr ''UPDATE''" "final_status s3 = Some ''ESCALATED''"
    and star: "step\<^sup>*\<^sup>* (Running ''RETRIEVE'' s tr)
                 (Done s3 (tr @ [''RETRIEVE'', ''DECIDE'', ''UPDATE'', ''DO'']))"
    by blast
  have "tr @ [''RETRIEVE'', ''DECIDE'', ''UPDATE'', ''DO''] = escalated_path"
    by (simp add: tr escalated_path_def)
  with star assms(1) have "runs s0 (Done s3 escalated_path)"
    by (simp add: runs_def)
  moreover have "knowledge_base_search (VList []) = Inr [(''retrieved_kb_article'', [])]"
    by (simp add: knowledge_base_search_def py_in_def)
  moreover have "subscript (solution_evaluation []) ''solution_score'' = Inr 75"
    by (simp add: solution_evaluation_empty subscript_def)
  moreover have "''UPDATE'' \<in> set escalated_path"
    by (simp add: escalated_path_def)
  ultimately show ?thesis using r by auto
qed


lemma escalating_reaches_retrieve:
  "engine 3 (Running entry_point escalating_input []) =
     Running ''RETRIEVE'' escalating_at_retrieve [''INTAKE'', ''UNDERSTAND'', ''PREPARE'']"
  unfolding escalating_at_retrieve_def by code_simp

lemma escalating_structured_data:
  "structured_data escalating_at_retrieve =
     Some [(''intent'', VStr ''general_inquiry''),
           (''structured_query'', VStr ''Where is my invoice?''),
           (''extracted_entities'', VList [])]"
  unfolding escalating_at_retrieve_def by code_simp

theorem no_match_escalates_witness:
  "step\<^sup>*\<^sup>* (Running entry_point escalating_input [])
     (Running ''RETRIEVE'' escalating_at_retrieve [''INTAKE'', ''UNDERSTAND'', ''PREPARE'']) \<and>
   structured_data escalating_at_retrieve =
     Some [(''intent'', VStr ''general_inquiry''),
           (''structured_query'', VStr ''Where is my invoice?''),
           (''extracted_entities'', VList [])] \<and>
   subscript [(''intent'', VStr ''general_inquiry''),
              (''structured_query'', VStr ''Where is my invoice?''),
              (''extracted_entities'', VList [])] ''extracted_entities'' = Inr (VList []) \<and>
   (\<exists>s3. runs escalating_input (Done s3 escalated_path) \<and> final_status s3 = Some ''ESCALATED'')"
proof -
  have "step\<^sup>*\<^sup>* (Running entry_point escalating_input [])
          (engine 3 (Running entry_point escalating_input []))"
    by (rule engine_star) (simp add: entry_declared del: set_map)
  then have a: "step\<^sup>*\<^sup>* (Running entry_point escalating_input [])
     (Running ''RETRIEVE'' escalating_at_retrieve [''INTAKE'', ''UNDERSTAND'', ''PREPARE''])"
    by (simp only: escalating_reaches_retrieve)
  have b: "subscript [(''intent'', VStr ''general_inquiry''),
              (''structured_query'', VStr ''Where is my invoice?''),
              (''extracted_entities'', VList [])] ''extracted_entities'' = Inr (VList [])"
    by (simp add: subscript_def)
  from no_match_escalates [OF a escalating_structured_data b] a escalating_structured_data b
  show ?thesis by blast
qed

section \<open>After DO\<close>

lemma steps_from_do_resolved:
  assumes "log s = Some l" and "ticket_id s = Some t" and "email s = Some m"
    and "final_response s = Some r" and "final_status s = Some ''RESOLVED''"
  shows "\<exists>s1 s3.
           stage_do s = Returned s1 \<and> final_status s1 = Some ''RESOLVED'' \<and>
           route_after_do s1 = Inr ''CLOSE'' \<and>
           step (Running ''DO'' s tr) (Running ''CLOSE'' s1 (tr @ [''DO''])) \<and>
           step\<^sup>*\<^sup>* (Running ''DO'' s tr) (Done s3 (tr @ [''DO'', ''CLOSE'', ''COMPLETE'']))"
proof -
  let ?l1 = "l @ [check_mark @ '' STAGE: DO'']"
  let ?s1 = "s\<lparr>log := Some ?l1\<rparr>"
  have o: "stage_do s = Returned ?s1"
    using assms(1,3,4) by (rule from_do)
  have ro: "route_after_do ?s1 = Inr ''CLOSE''"
    using assms(5) by (simp add: route_after_do_def)
  let ?l2 = "?l1 @ [check_mark @ '' STAGE: CLOSE'']"
  let ?s2 = "?s1\<lparr>log := Some ?l2\<rparr>"
  have c: "stage_close ?s1 = Returned ?s2"
    by (rule from_close [where t = t]) (simp_all add: assms)
  let ?s3 = "?s2\<lparr>log := Some (?l2 @ [check_mark @ '' STAGE: COMPLETE - Workflow finished.''])\<rparr>"
  have f: "stage_complete ?s2 = Returned ?s3"
    by (rule from_complete) simp
  have e1: "exec_node ''DO'' s tr = Running ''CLOSE'' ?s1 (tr @ [''DO''])"
    by (simp only: exec_do o ro outcome.case sum.case) simp
  have e2: "exec_node ''CLOSE'' ?s1 (tr @ [''DO'']) = Running ''COMPLETE'' ?s2 (tr @ [''DO'', ''CLOSE''])"
    by (simp only: exec_close c outcome.case) simp
  have e3: "exec_node ''COMPLETE'' ?s2 (tr @ [''DO'', ''CLOSE'']) =
      Done ?s3 (tr @ [''DO'', ''CLOSE'', ''COMPLETE''])"
    by (simp only: exec_complete f outcome.case) simp
  have n: "''DO'' \<in> set (map fst nodes)" "''CLOSE'' \<in> set (map fst nodes)"
    "''COMPLETE'' \<in> set (map fst nodes)"
    by (simp_all add: nodes_def)
  have s1: "step (Running ''DO'' s tr) (Running ''CLOSE'' ?s1 (tr @ [''DO'']))"
    using step_exec [OF n(1), of s tr] e1 by simp
  moreover have "step (Running ''CLOSE'' ?s1 (tr @ [''DO'']))
      (Running ''COMPLETE'' ?s2 (tr @ [''DO'', ''CLOSE'']))"
    using step_exec [OF n(2), of ?s1 "tr @ [''DO'']"] e2 by simp
  moreover have "step (Running ''COMPLETE'' ?s2 (tr @ [''DO'', ''CLOSE'']))
      (Done ?s3 (tr @ [''DO'', ''CLOSE'', ''COMPLETE'']))"
    using step_exec [OF n(3), of ?s2 "tr @ [''DO'', ''CLOSE'']"] e3 by simp
  ultimately have star: "step\<^sup>*\<^sup>* (Running ''DO'' s tr)
      (Done ?s3 (tr @ [''DO'', ''CLOSE'', ''COMPLETE'']))"
    by (meson converse_rtranclp_into_rtranclp rtranclp.rtrancl_refl)
  have "final_status ?s1 = Some ''RESOLVED''" using assms(5) by simp
  with o ro s1 star show ?thesis by blast
qed

lemma steps_from_do_escalated:
  assumes "log s = Some l" and "email s = Some m"
    and "final_response s = Some r" and "final_status s = Some ''ESCALATED''"
  shows "\<exists>s1.
           stage_do s = Returned s1 \<and> final_status s1 = Some ''ESCALATED'' \<and>
           route_after_do s1 = Inr END \<and>
           step (Running ''DO'' s tr) (Done s1 (tr @ [''DO'']))"
proof -
  let ?s1 = "s\<lparr>log := Some (l @ [check_mark @ '' STAGE: DO''])\<rparr>"
  have o: "stage_do s = Returned ?s1"
    using assms(1,2,3) by (rule from_do)
  have ro: "route_after_do ?s1 = Inr END"
    using assms(4) by (simp add: route_after_do_def)
  have e1: "exec_node ''DO'' s tr = Done ?s1 (tr @ [''DO''])"
    by (simp only: exec_do o ro outcome.case sum.case) (simp add: END_def)
  have "''DO'' \<in> set (map fst nodes)" by (simp add: nodes_def)
  from step_exec [OF this, of s tr] e1
  have "step (Running ''DO'' s tr) (Done ?s1 (tr @ [''DO'']))" by simp
  moreover have "final_status ?s1 = Some ''ESCALATED''" using assms(4) by simp
  ultimately show ?thesis using o ro by blast
qed

text \<open>
  Claim C4. Take any run that arrives at DO. The stage returns, and the router after DO
  answers CLOSE if and only if the final status is RESOLVED. If it is, the next step of the
  run executes CLOSE, and the run completes with CLOSE and then COMPLETE as its last two
  stages. If it is not, the final status is ESCALATED, the router answers the terminal
  marker, and the run ends at DO: neither CLOSE nor COMPLETE is among the stages it has
  executed.
\<close>

theorem close_only_when_resolved:
  assumes "step\<^sup>*\<^sup>* (Running entry_point s0 []) (Running ''DO'' s tr)"
  shows "''CLOSE'' \<notin> set tr \<and> ''COMPLETE'' \<notin> set tr
       \<and> (\<exists>s1. stage_do s = Returned s1
           \<and> (route_after_do s1 = Inr ''CLOSE'' \<longleftrightarrow> final_status s1 = Some ''RESOLVED'')
           \<and> (final_status s1 = Some ''RESOLVED'' \<longrightarrow>
                 step (Running ''DO'' s tr) (Running ''CLOSE'' s1 (tr @ [''DO''])) \<and>
                 (\<exists>s3. runs s0 (Done s3 (tr @ [''DO'', ''CLOSE'', ''COMPLETE'']))))
           \<and> (final_status s1 \<noteq> Some ''RESOLVED'' \<longrightarrow>
                 final_status s1 = Some ''ESCALATED'' \<and> route_after_do s1 = Inr END \<and>
                 runs s0 (Done s1 (tr @ [''DO''])) \<and>
                 ''CLOSE'' \<notin> set (tr @ [''DO'']) \<and> ''COMPLETE'' \<notin> set (tr @ [''DO''])))"
  using at_do [OF assms]
proof
  assume a: "on_path s0 resolved_path resolved_log 6 7 s tr \<and> contactable s \<and>
          final_response s \<noteq> None \<and> final_status s = Some ''RESOLVED''"
  then obtain l t m r where tr: "tr = take 6 resolved_path" and l: "log s = Some l"
    and t: "ticket_id s = Some t" and m: "email s = Some m" and r: "final_response s = Some r"
    and f: "final_status s = Some ''RESOLVED''"
    by (auto simp: on_path_def contactable_def)
  from steps_from_do_resolved [OF l t m r f, of tr]
  obtain s1 s3 where s: "stage_do s = Returned s1" "final_status s1 = Some ''RESOLVED''"
    "route_after_do s1 = Inr ''CLOSE''"
    "step (Running ''DO'' s tr) (Running ''CLOSE'' s1 (tr @ [''DO'']))"
    and star: "step\<^sup>*\<^sup>* (Running ''DO'' s tr) (Done s3 (tr @ [''DO'', ''CLOSE'', ''COMPLETE'']))"
    by blast
  from star assms have "runs s0 (Done s3 (tr @ [''DO'', ''CLOSE'', ''COMPLETE'']))"
    by (simp add: runs_def)
  moreover have "''CLOSE'' \<notin> set tr \<and> ''COMPLETE'' \<notin> set tr"
    by (simp add: tr resolved_path_def)
  ultimately show ?thesis using s by auto
next
  assume a: "on_path s0 escalated_path escalated_log 6 7 s tr \<and> contactable s \<and>
          final_response s \<noteq> None \<and> final_status s = Some ''ESCALATED''"
  then obtain l m r where tr: "tr = take 6 escalated_path" and l: "log s = Some l"
    and m: "email s = Some m" and r: "final_response s = Some r"
    and f: "final_status s = Some ''ESCALATED''"
    by (auto simp: on_path_def contactable_def)
  from steps_from_do_escalated [OF l m r f, of tr]
  obtain s1 where s: "stage_do s = Returned s1" "final_status s1 = Some ''ESCALATED''"
    "route_after_do s1 = Inr END"
    and st: "step (Running ''DO'' s tr) (Done s1 (tr @ [''DO'']))"
    by blast
  from st assms have "runs s0 (Done s1 (tr @ [''DO'']))"
    by (simp add: runs_def)
  moreover have "''CLOSE'' \<notin> set tr \<and> ''COMPLETE'' \<notin> set tr"
    by (simp add: tr escalated_path_def)
  ultimately show ?thesis using s by (auto simp: END_def)
qed


lemma sample_reaches_do:
  "engine 6 (Running entry_point sample_input []) =
     Running ''DO'' sample_at_do
       [''INTAKE'', ''UNDERSTAND'', ''PREPARE'', ''RETRIEVE'', ''DECIDE'', ''CREATE'']"
  unfolding sample_at_do_def by code_simp

lemma escalating_reaches_do:
  "engine 6 (Running entry_point escalating_input []) =
     Running ''DO'' escalating_at_do
       [''INTAKE'', ''UNDERSTAND'', ''PREPARE'', ''RETRIEVE'', ''DECIDE'', ''UPDATE'']"
  unfolding escalating_at_do_def by code_simp

lemma sample_trace: "trace (invoke sample_input) = resolved_path"
  by (subst sample_run) simp

lemma escalating_trace: "trace (invoke escalating_input) = escalated_path"
  by (subst escalating_run) simp

theorem close_only_when_resolved_witness:
  "step\<^sup>*\<^sup>* (Running entry_point sample_input [])
     (Running ''DO'' sample_at_do
        [''INTAKE'', ''UNDERSTAND'', ''PREPARE'', ''RETRIEVE'', ''DECIDE'', ''CREATE'']) \<and>
   (\<exists>s1. stage_do sample_at_do = Returned s1 \<and> final_status s1 = Some ''RESOLVED'' \<and>
      route_after_do s1 = Inr ''CLOSE'' \<and>
      (\<exists>s3. runs sample_input (Done s3 resolved_path))) \<and>
   step\<^sup>*\<^sup>* (Running entry_point escalating_input [])
     (Running ''DO'' escalating_at_do
        [''INTAKE'', ''UNDERSTAND'', ''PREPARE'', ''RETRIEVE'', ''DECIDE'', ''UPDATE'']) \<and>
   (\<exists>s1. stage_do escalating_at_do = Returned s1 \<and> final_status s1 = Some ''ESCALATED'' \<and>
      route_after_do s1 = Inr END \<and> runs escalating_input (Done s1 escalated_path))"
proof -
  have "step\<^sup>*\<^sup>* (Running entry_point sample_input [])
          (engine 6 (Running entry_point sample_input []))"
    by (rule engine_star) (simp add: entry_declared del: set_map)
  then have a: "step\<^sup>*\<^sup>* (Running entry_point sample_input [])
     (Running ''DO'' sample_at_do
        [''INTAKE'', ''UNDERSTAND'', ''PREPARE'', ''RETRIEVE'', ''DECIDE'', ''CREATE''])"
    by (simp only: sample_reaches_do)
  have "step\<^sup>*\<^sup>* (Running entry_point escalating_input [])
          (engine 6 (Running entry_point escalating_input []))"
    by (rule engine_star) (simp add: entry_declared del: set_map)
  then have b: "step\<^sup>*\<^sup>* (Running entry_point escalating_input [])
     (Running ''DO'' escalating_at_do
        [''INTAKE'', ''UNDERSTAND'', ''PREPARE'', ''RETRIEVE'', ''DECIDE'', ''UPDATE''])"
    by (simp only: escalating_reaches_do)
  from close_only_when_resolved [OF a] obtain s1 where
    s1: "stage_do sample_at_do = Returned s1"
      "route_after_do s1 = Inr ''CLOSE'' \<longleftrightarrow> final_status s1 = Some ''RESOLVED''"
      "final_status s1 = Some ''RESOLVED'' \<longrightarrow>
         (\<exists>s3. runs sample_input (Done s3
            ([''INTAKE'', ''UNDERSTAND'', ''PREPARE'', ''RETRIEVE'', ''DECIDE'', ''CREATE'']
             @ [''DO'', ''CLOSE'', ''COMPLETE''])))"
      "final_status s1 \<noteq> Some ''RESOLVED'' \<longrightarrow>
         runs sample_input (Done s1
            ([''INTAKE'', ''UNDERSTAND'', ''PREPARE'', ''RETRIEVE'', ''DECIDE'', ''CREATE'']
             @ [''DO'']))"
    by blast
  have "final_status s1 = Some ''RESOLVED''"
  proof (rule ccontr)
    assume "final_status s1 \<noteq> Some ''RESOLVED''"
    with s1(4) have "Done s1 ([''INTAKE'', ''UNDERSTAND'', ''PREPARE'', ''RETRIEVE'', ''DECIDE'', ''CREATE'']
             @ [''DO'']) = invoke sample_input"
      by (blast dest: runs_unique)
    then have "trace (invoke sample_input) =
        [''INTAKE'', ''UNDERSTAND'', ''PREPARE'', ''RETRIEVE'', ''DECIDE'', ''CREATE''] @ [''DO'']"
      by (metis trace.simps(2))
    then show False by (simp add: sample_trace resolved_path_def)
  qed
  with s1 have c: "\<exists>s1. stage_do sample_at_do = Returned s1 \<and> final_status s1 = Some ''RESOLVED'' \<and>
      route_after_do s1 = Inr ''CLOSE'' \<and> (\<exists>s3. runs sample_input (Done s3 resolved_path))"
    by (auto simp: resolved_path_def)
  from close_only_when_resolved [OF b] obtain u1 where
    u1: "stage_do escalating_at_do = Returned u1"
      "final_status u1 = Some ''RESOLVED'' \<longrightarrow>
         (\<exists>s3. runs escalating_input (Done s3
            ([''INTAKE'', ''UNDERSTAND'', ''PREPARE'', ''RETRIEVE'', ''DECIDE'', ''UPDATE'']
             @ [''DO'', ''CLOSE'', ''COMPLETE''])))"
      "final_status u1 \<noteq> Some ''RESOLVED'' \<longrightarrow>
         final_status u1 = Some ''ESCALATED'' \<and> route_after_do u1 = Inr END \<and>
         runs escalating_input (Done u1
            ([''INTAKE'', ''UNDERSTAND'', ''PREPARE'', ''RETRIEVE'', ''DECIDE'', ''UPDATE'']
             @ [''DO'']))"
    by blast
  have "final_status u1 \<noteq> Some ''RESOLVED''"
  proof
    assume "final_status u1 = Some ''RESOLVED''"
    with u1(2) obtain s3 where "Done s3 ([''INTAKE'', ''UNDERSTAND'', ''PREPARE'', ''RETRIEVE'', ''DECIDE'', ''UPDATE'']
             @ [''DO'', ''CLOSE'', ''COMPLETE'']) = invoke escalating_input"
      by (blast dest: runs_unique)
    then have "trace (invoke escalating_input) =
        [''INTAKE'', ''UNDERSTAND'', ''PREPARE'', ''RETRIEVE'', ''DECIDE'', ''UPDATE'']
        @ [''DO'', ''CLOSE'', ''COMPLETE'']"
      by (metis trace.simps(2))
    then show False by (simp add: escalating_trace escalated_path_def)
  qed
  with u1 have d: "\<exists>s1. stage_do escalating_at_do = Returned s1 \<and>
      final_status s1 = Some ''ESCALATED'' \<and>
      route_after_do s1 = Inr END \<and> runs escalating_input (Done s1 escalated_path)"
    by (auto simp: escalated_path_def)
  from a b c d show ?thesis by blast
qed

section \<open>The entries of the log\<close>

lemma take_whole:
  "take 9 resolved_path = resolved_path" "take 10 resolved_log = resolved_log"
  "take 7 escalated_path = escalated_path" "take 8 escalated_log = escalated_log"
  by (simp_all add: resolved_path_def resolved_log_def escalated_path_def escalated_log_def)

lemma paths_differ: "escalated_path \<noteq> resolved_path"
  by (simp add: escalated_path_def resolved_path_def)

text \<open>
  Claim C10. Every stage of the graph that returns has appended exactly one entry to the
  log, its header, except DECIDE, which has appended exactly two: its header and the line
  of the decision logic, which shows the score that the decision records. The log of a
  completed run is therefore fixed by its path: the initial log followed by the ten entries
  of the resolved path, or by the eight entries of the escalated path; a run that starts
  with the empty log ends with 10 entries on the resolved path and 8 on the escalated one.
\<close>

theorem log_entries_by_path:
  "(\<forall>n stage s1 s2. (n, stage) \<in> set nodes \<and> stage s1 = Returned s2 \<longrightarrow>
       (\<exists>l. log s1 = Some l \<and>
          (if n = ''DECIDE''
           then (\<exists>score verdict d.
                   log s2 = Some (l @ [stage_header n,
                                       ''  Decision Logic: Score is '' @ str_int score @ ''. '' @ verdict]) \<and>
                   decision s2 = Some d \<and> map_of d ''score'' = Some (VInt score))
           else log s2 = Some (l @ [stage_header n]))))
   \<and> (runs s0 (Done s tr) \<longrightarrow>
        (\<exists>l0. log s0 = Some l0 \<and>
           ((tr = resolved_path \<and> log s = Some (l0 @ resolved_log)) \<or>
            (tr = escalated_path \<and> log s = Some (l0 @ escalated_log)))))
   \<and> length resolved_log = 10 \<and> length escalated_log = 8
   \<and> (runs s0 (Done s tr) \<and> log s0 = Some [] \<longrightarrow>
        (\<exists>l. log s = Some l \<and> length l = (if tr = resolved_path then 10 else 8)))"
proof (intro conjI)
  show "\<forall>n stage s1 s2. (n, stage) \<in> set nodes \<and> stage s1 = Returned s2 \<longrightarrow>
       (\<exists>l. log s1 = Some l \<and>
          (if n = ''DECIDE''
           then (\<exists>score verdict d.
                   log s2 = Some (l @ [stage_header n,
                                       ''  Decision Logic: Score is '' @ str_int score @ ''. '' @ verdict]) \<and>
                   decision s2 = Some d \<and> map_of d ''score'' = Some (VInt score))
           else log s2 = Some (l @ [stage_header n])))"
    using stage_returned_log by blast
  show r: "length resolved_log = 10" by (simp add: resolved_log_def)
  show e: "length escalated_log = 8" by (simp add: escalated_log_def)
  have p: "\<exists>l0. log s0 = Some l0 \<and>
           ((tr = resolved_path \<and> log s = Some (l0 @ resolved_log)) \<or>
            (tr = escalated_path \<and> log s = Some (l0 @ escalated_log)))"
    if "runs s0 (Done s tr)"
    using completed_run [OF that]
    by (auto simp: on_path_def take_whole)
  then show "runs s0 (Done s tr) \<longrightarrow>
        (\<exists>l0. log s0 = Some l0 \<and>
           ((tr = resolved_path \<and> log s = Some (l0 @ resolved_log)) \<or>
            (tr = escalated_path \<and> log s = Some (l0 @ escalated_log))))"
    by blast
  show "runs s0 (Done s tr) \<and> log s0 = Some [] \<longrightarrow>
        (\<exists>l. log s = Some l \<and> length l = (if tr = resolved_path then 10 else 8))"
  proof
    assume a: "runs s0 (Done s tr) \<and> log s0 = Some []"
    with p have "(tr = resolved_path \<and> log s = Some resolved_log) \<or>
            (tr = escalated_path \<and> log s = Some escalated_log)"
      by auto
    then show "\<exists>l. log s = Some l \<and> length l = (if tr = resolved_path then 10 else 8)"
      using r e paths_differ by auto
  qed
qed

lemma sample_run_log: "log (state_at (invoke sample_input)) = Some resolved_log"
  by code_simp

lemma escalating_run_log: "log (state_at (invoke escalating_input)) = Some escalated_log"
  by code_simp

theorem log_entries_by_path_witness:
  "(''DECIDE'', stage_decide) \<in> set nodes \<and>
   runs sample_input (Done (state_at (invoke sample_input)) resolved_path) \<and>
   log sample_input = Some [] \<and>
   log (state_at (invoke sample_input)) = Some resolved_log \<and> length resolved_log = 10 \<and>
   runs escalating_input (Done (state_at (invoke escalating_input)) escalated_path) \<and>
   log escalating_input = Some [] \<and>
   log (state_at (invoke escalating_input)) = Some escalated_log \<and> length escalated_log = 8"
proof -
  have a: "runs sample_input (Done (state_at (invoke sample_input)) resolved_path)"
    using runs_invoke [of sample_input] sample_run by simp
  have b: "runs escalating_input (Done (state_at (invoke escalating_input)) escalated_path)"
    using runs_invoke [of escalating_input] escalating_run by simp
  have l: "log sample_input = Some []" "log escalating_input = Some []"
    by (simp_all add: sample_input_def escalating_input_def)
  have n: "(''DECIDE'', stage_decide) \<in> set nodes" by (simp add: nodes_def)
  from log_entries_by_path [of sample_input "state_at (invoke sample_input)" resolved_path]
    log_entries_by_path [of escalating_input "state_at (invoke escalating_input)" escalated_path]
    a b l n sample_run_log escalating_run_log
  show ?thesis by simp
qed

end
